theory Spec2Isabelle
  imports Complex_Main "HOL-Library.Log_Nat"
begin

section \<open>Python values and library operations used by the scripts\<close>

text \<open>
  The exceptions the modelled code can raise. \<open>ValueError\<close> is what
  \<^verbatim>\<open>deque(maxlen=n)\<close> raises for a negative \<open>n\<close>, \<open>IndexError\<close> what
  \<^verbatim>\<open>popleft()\<close> raises on an empty deque, \<open>ZeroDivisionError\<close> what \<^verbatim>\<open>/\<close> raises
  for a zero divisor. \<open>OverflowError\<close> is raised by \<^verbatim>\<open>/\<close> when the quotient of two
  integers is too large for a float, and by \<^verbatim>\<open>deque(maxlen=n)\<close> when \<open>n\<close> does not
  fit the C type \<^verbatim>\<open>Py_ssize_t\<close>.
\<close>

datatype error = ValueError | IndexError | ZeroDivisionError | OverflowError

subsection \<open>True division of integers\<close>

text \<open>
  \<^verbatim>\<open>a / b\<close> on two Python integers returns a float: the IEEE 754 binary64 number
  nearest to the exact quotient, ties going to the even significand. A float is
  represented here by the rational number it denotes (the sign of a zero is not kept).

  \<open>round_half_even\<close> rounds a rational to the nearest integer. \<open>exponent a b\<close> is the
  binary exponent \<open>e\<close> of a non-zero quotient, \<open>2\<^sup>e \<le> |a / b| < 2\<^sup>e\<^sup>+\<^sup>1\<close>, found from
  the bit lengths of \<open>a\<close> and \<open>b\<close>. A binary64 number with exponent \<open>e\<close> is a multiple of
  \<open>2\<^sup>e\<^sup>-\<^sup>5\<^sup>2\<close> (53 significant bits); below the smallest normal exponent \<open>-1022\<close> the
  spacing stays at \<open>2\<^sup>-\<^sup>1\<^sup>0\<^sup>7\<^sup>4\<close>.

  The quotient is too large for a float when it rounds to \<open>2\<^sup>1\<^sup>0\<^sup>2\<^sup>4\<close>, that is from
  \<open>2\<^sup>1\<^sup>0\<^sup>2\<^sup>4 - 2\<^sup>9\<^sup>7\<^sup>0\<close> on, halfway between the largest float and \<open>2\<^sup>1\<^sup>0\<^sup>2\<^sup>4\<close>.
\<close>

definition round_half_even :: "rat \<Rightarrow> int" where
  "round_half_even x =
     (let f = \<lfloor>x\<rfloor>; d = x - of_int f
      in if d < 1 / 2 then f
         else if 1 / 2 < d then f + 1
         else if even f then f else f + 1)"

definition exponent :: "int \<Rightarrow> int \<Rightarrow> int" where
  "exponent a b =
     (let k = bitlen (abs a) - bitlen (abs b)
      in if (2 :: rat) powi k * of_int \<bar>b\<bar> \<le> of_int \<bar>a\<bar> then k else k - 1)"

definition nearest_double :: "int \<Rightarrow> int \<Rightarrow> rat" where
  "nearest_double a b =
     (if a = 0 then 0
      else let e = max (exponent a b) (- 1022);
               u = (2 :: rat) powi (e - 52)
           in of_int (round_half_even (of_int a / of_int b / u)) * u)"

definition truediv :: "int \<Rightarrow> int \<Rightarrow> error + rat" where
  "truediv a b =
     (if b = 0 then Inl ZeroDivisionError
      else if 2 ^ 1024 - 2 ^ 970 \<le> \<bar>rat_of_int a / rat_of_int b\<bar> then Inl OverflowError
      else Inr (nearest_double a b))"

subsection \<open>Deques\<close>

text \<open>
  \<^verbatim>\<open>collections.deque\<close>: the items from left to right and the optional bound.
  Appending to a bounded deque that is full discards an item from the left end.
  The constructor converts \<^verbatim>\<open>maxlen\<close> to a \<^verbatim>\<open>Py_ssize_t\<close> (64 bits, signed) first,
  which raises \<open>OverflowError\<close> outside \<open>-2\<^sup>6\<^sup>3 \<le> n < 2\<^sup>6\<^sup>3\<close>, and then rejects a negative
  bound with \<open>ValueError\<close>.
\<close>

record deque =
  items :: "int list"
  maxlen :: "int option"

definition deque_new :: "int option \<Rightarrow> error + deque" where
  "deque_new m =
     (case m of
        None \<Rightarrow> Inr \<lparr>items = [], maxlen = None\<rparr>
      | Some n \<Rightarrow>
          if n < - (2 ^ 63) \<or> 2 ^ 63 \<le> n then Inl OverflowError
          else if n < 0 then Inl ValueError
          else Inr \<lparr>items = [], maxlen = Some n\<rparr>)"

definition len :: "deque \<Rightarrow> int" where
  "len d = int (length (items d))"

definition deque_sum :: "deque \<Rightarrow> int" where
  "deque_sum d = sum_list (items d)"

definition deque_append :: "deque \<Rightarrow> int \<Rightarrow> deque" where
  "deque_append d v =
     (let d' = d\<lparr>items := items d @ [v]\<rparr>
      in case maxlen d of
           None \<Rightarrow> d'
         | Some n \<Rightarrow> if len d' > n then d'\<lparr>items := tl (items d')\<rparr> else d')"

definition popleft :: "deque \<Rightarrow> error + (int \<times> deque)" where
  "popleft d =
     (case items d of
        [] \<Rightarrow> Inl IndexError
      | x # xs \<Rightarrow> Inr (x, d\<lparr>items := xs\<rparr>))"

section \<open>Generators\<close>

text \<open>
  A generator function is given by the code that runs before its loop (\<open>prologue\<close>, which
  sets up the local variables from the window size) and by the body of its
  \<^verbatim>\<open>for value in stream\<close> loop up to the \<^verbatim>\<open>yield\<close> (\<open>body\<close>, which maps the locals and
  the value read to the yielded average and the new locals). Either may raise.

  Calling a generator function runs none of its code: it returns a generator object whose
  frame is \<open>Created\<close>. Each \<open>gen_next\<close> resumes the frame until the next \<^verbatim>\<open>yield\<close>, the
  end of the stream, or an exception; after the last two the frame is \<open>Closed\<close>.
  \<open>source\<close> is what the underlying iterator has not handed out yet, \<open>wsize\<close> the
  \<^verbatim>\<open>window_size\<close> argument of the call.
\<close>

record 's code =
  prologue :: "int \<Rightarrow> error + 's"
  body :: "int \<Rightarrow> 's \<Rightarrow> int \<Rightarrow> error + (rat \<times> 's)"

datatype 's frame = Created | Suspended 's | Closed

record 's generator =
  code :: "'s code"
  source :: "int list"
  wsize :: int
  frame :: "'s frame"

datatype event = Yield rat | StopIteration | Raise error

definition call :: "'s code \<Rightarrow> int list \<Rightarrow> int \<Rightarrow> 's generator" where
  "call c stream window_size =
     \<lparr>code = c, source = stream, wsize = window_size, frame = Created\<rparr>"

definition for_loop :: "'s \<Rightarrow> 's generator \<Rightarrow> event \<times> 's generator" where
  "for_loop s g =
     (case source g of
        [] \<Rightarrow> (StopIteration, g\<lparr>frame := Closed\<rparr>)
      | v # rest \<Rightarrow>
          (case body (code g) (wsize g) s v of
             Inl e \<Rightarrow> (Raise e, g\<lparr>source := rest, frame := Closed\<rparr>)
           | Inr (average, s') \<Rightarrow>
               (Yield average, g\<lparr>source := rest, frame := Suspended s'\<rparr>)))"

definition gen_next :: "'s generator \<Rightarrow> event \<times> 's generator" where
  "gen_next g =
     (case frame g of
        Created \<Rightarrow>
          (case prologue (code g) (wsize g) of
             Inl e \<Rightarrow> (Raise e, g\<lparr>frame := Closed\<rparr>)
           | Inr s \<Rightarrow> for_loop s g)
      | Suspended s \<Rightarrow> for_loop s g
      | Closed \<Rightarrow> (StopIteration, g))"

text \<open>
  Driving a generator to its end, as \<^verbatim>\<open>list(gen)\<close> or a \<^verbatim>\<open>for\<close> loop over it does:
  the values yielded, the exception that ended it if any, and the part of the stream that
  was never read.
\<close>

record outcome =
  outputs :: "rat list"
  raised :: "error option"
  unread :: "int list"

function drain :: "'s generator \<Rightarrow> outcome" where
  "drain g =
     (case gen_next g of
        (Yield a, g') \<Rightarrow> (let r = drain g' in r\<lparr>outputs := a # outputs r\<rparr>)
      | (StopIteration, g') \<Rightarrow> \<lparr>outputs = [], raised = None, unread = source g'\<rparr>
      | (Raise e, g') \<Rightarrow> \<lparr>outputs = [], raised = Some e, unread = source g'\<rparr>)"
  by pat_completeness auto

termination
  apply (relation "measure (\<lambda>g. length (source g))")
   apply simp
  apply (auto simp: gen_next_def for_loop_def
              split: frame.splits sum.splits list.splits prod.splits)
  done

section \<open>The three moving-average generators\<close>

definition moving_average_code :: "deque code" where
  "moving_average_code =
     \<lparr>prologue = (\<lambda>window_size. deque_new (Some window_size)),
      body = (\<lambda>window_size window v.
        let window = deque_append window v
        in case truediv (deque_sum window) (len window) of
             Inl e \<Rightarrow> Inl e
           | Inr average \<Rightarrow> Inr (average, window))\<rparr>"

definition moving_average :: "int list \<Rightarrow> int \<Rightarrow> deque generator" where
  "moving_average stream window_size = call moving_average_code stream window_size"

definition moving_average_explicit_code :: "deque code" where
  "moving_average_explicit_code =
     \<lparr>prologue = (\<lambda>window_size. deque_new None),
      body = (\<lambda>window_size window v.
        let window = deque_append window v
        in case (if len window > window_size
                 then map_sum id snd (popleft window) else Inr window) of
             Inl e \<Rightarrow> Inl e
           | Inr window \<Rightarrow>
               (case truediv (deque_sum window) (len window) of
                  Inl e \<Rightarrow> Inl e
                | Inr average \<Rightarrow> Inr (average, window)))\<rparr>"

definition moving_average_explicit :: "int list \<Rightarrow> int \<Rightarrow> deque generator" where
  "moving_average_explicit stream window_size = call moving_average_explicit_code stream window_size"

text \<open>The locals of the optimized variant are the window and \<open>running_sum\<close>.\<close>

definition moving_average_optimized_code :: "(deque \<times> int) code" where
  "moving_average_optimized_code =
     \<lparr>prologue = (\<lambda>window_size.
        case deque_new None of Inl e \<Rightarrow> Inl e | Inr window \<Rightarrow> Inr (window, 0)),
      body = (\<lambda>window_size (window, running_sum) v.
        let window = deque_append window v;
            running_sum = running_sum + v
        in case (if len window > window_size
                 then (case popleft window of
                         Inl e \<Rightarrow> Inl e
                       | Inr (removed_value, window) \<Rightarrow>
                           Inr (window, running_sum - removed_value))
                 else Inr (window, running_sum)) of
             Inl e \<Rightarrow> Inl e
           | Inr (window, running_sum) \<Rightarrow>
               (case truediv running_sum (len window) of
                  Inl e \<Rightarrow> Inl e
                | Inr average \<Rightarrow> Inr (average, (window, running_sum))))\<rparr>"

definition moving_average_optimized :: "int list \<Rightarrow> int \<Rightarrow> (deque \<times> int) generator" where
  "moving_average_optimized stream window_size = call moving_average_optimized_code stream window_size"

text \<open>
  The generator after \<open>n\<close> requests for a value, whatever each request produced.
\<close>

definition after :: "nat \<Rightarrow> 's generator \<Rightarrow> 's generator" where
  "after n g = ((\<lambda>g. snd (gen_next g)) ^^ n) g"

text \<open>
  Notions used to describe the generators from outside: the exact arithmetic mean of a
  list of integers, the last \<open>W\<close> of the values consumed so far (all of them while there
  are fewer than \<open>W\<close>), and the run of a sliding-window averager that has consumed \<open>p\<close>
  over the rest \<open>s\<close> of its input: it divides the sum of the current window by its length,
  stops at the first division that raises, and otherwise goes on.
\<close>

definition mean :: "int list \<Rightarrow> rat" where
  "mean w = rat_of_int (sum_list w) / rat_of_int (int (length w))"

definition recent :: "int \<Rightarrow> int list \<Rightarrow> int list" where
  "recent W p = drop (length p - nat W) p"

definition window_average :: "int \<Rightarrow> int list \<Rightarrow> error + rat" where
  "window_average W p = truediv (sum_list (recent W p)) (int (length (recent W p)))"

fun averages :: "int \<Rightarrow> int list \<Rightarrow> int list \<Rightarrow> outcome" where
  "averages W p [] = \<lparr>outputs = [], raised = None, unread = []\<rparr>"
| "averages W p (v # s) =
     (case window_average W (p @ [v]) of
        Inl e \<Rightarrow> \<lparr>outputs = [], raised = Some e, unread = s\<rparr>
      | Inr a \<Rightarrow> (let r = averages W (p @ [v]) s in r\<lparr>outputs := a # outputs r\<rparr>))"

text \<open>
  The state of \<open>moving_average_optimized\<close> between two elements: the window is an
  unbounded deque of at most \<open>W\<close> items and \<open>running_sum\<close> is their sum.
\<close>

definition running_sum_invariant :: "int \<Rightarrow> deque \<times> int \<Rightarrow> bool" where
  "running_sum_invariant W s =
     (maxlen (fst s) = None \<and> snd s = sum_list (items (fst s)) \<and>
      int (length (items (fst s))) \<le> W)"

section \<open>The decorators\<close>

text \<open>
  \<^verbatim>\<open>str.upper()\<close> on ASCII text: the letters \<open>a\<close> to \<open>z\<close> are mapped to \<open>A\<close> to \<open>Z\<close>,
  every other character is kept. Case mapping of characters outside ASCII is not modelled.
\<close>

definition upper_char :: "char \<Rightarrow> char" where
  "upper_char c =
     (let n = (of_char c :: nat)
      in if 97 \<le> n \<and> n \<le> 122 then char_of (n - 32) else c)"

definition upper :: "string \<Rightarrow> string" where
  "upper s = map upper_char s"

text \<open>
  A decorated function is called with \<open>args\<close>, which stands for the whole argument list
  \<^verbatim>\<open>(*args, **kwargs)\<close> that the wrapper passes on unchanged. The wrapped function
  either raises (\<open>Inl\<close>), and then so does the wrapper, or returns a string.
  \<open>shout func\<close> and \<open>style prefix suffix func\<close> are the wrappers that the decorators return.
\<close>

definition shout :: "('a \<Rightarrow> 'e + string) \<Rightarrow> 'a \<Rightarrow> 'e + string" where
  "shout func =
     (\<lambda>args.
        case func args of
          Inl e \<Rightarrow> Inl e
        | Inr result \<Rightarrow>
            (let shouted_result = upper result @ ''!!!''
             in Inr shouted_result))"

text \<open>
  The f-string \<^verbatim>\<open>f"{prefix}{result}{suffix}"\<close> formats each of the three strings as
  itself and joins them.
\<close>

definition style ::
  "string \<Rightarrow> string \<Rightarrow> ('a \<Rightarrow> 'e + string) \<Rightarrow> 'a \<Rightarrow> 'e + string" where
  "style prefix suffix =
     (\<lambda>func args.
        case func args of
          Inl e \<Rightarrow> Inl e
        | Inr result \<Rightarrow>
            (let styled_result = concat [prefix, result, suffix]
             in Inr styled_result))"

text \<open>Two of the functions that \<^verbatim>\<open>main\<close> decorates, before decoration.\<close>

definition greet :: "string \<Rightarrow> unit + string" where
  "greet name = Inr (''hello '' @ name)"

definition say_something :: "string \<Rightarrow> unit + string" where
  "say_something message = Inr message"

declare drain.simps [simp del]

section \<open>Rounding a quotient of integers to a double\<close>

lemma round_half_even_of_int: "round_half_even (of_int n) = n"
  by (simp add: round_half_even_def)

lemma round_half_even_near: "\<bar>rat_of_int (round_half_even x) - x\<bar> \<le> 1 / 2"
proof -
  define d where "d = x - of_int \<lfloor>x\<rfloor>"
  have d: "0 \<le> d" "d < 1"
    unfolding d_def by linarith+
  consider "d < 1 / 2" | "1 / 2 < d" | "d = 1 / 2"
    by linarith
  then show ?thesis
  proof cases
    case 1
    then have "round_half_even x = \<lfloor>x\<rfloor>"
      by (simp add: round_half_even_def d_def)
    then have "rat_of_int (round_half_even x) - x = - d"
      by (simp add: d_def)
    with 1 d show ?thesis
      by linarith
  next
    case 2
    then have "round_half_even x = \<lfloor>x\<rfloor> + 1"
      by (simp add: round_half_even_def d_def)
    then have "rat_of_int (round_half_even x) - x = 1 - d"
      by (simp add: d_def)
    with 2 d show ?thesis
      by linarith
  next
    case 3
    then have "round_half_even x = \<lfloor>x\<rfloor> \<or> round_half_even x = \<lfloor>x\<rfloor> + 1"
      by (simp add: round_half_even_def d_def Let_def)
    then have "rat_of_int (round_half_even x) - x = - d \<or> rat_of_int (round_half_even x) - x = 1 - d"
      by (auto simp: d_def)
    with 3 show ?thesis
      by auto
  qed
qed

lemma bitlen_powi:
  assumes "0 < n"
  shows "(2 :: rat) powi (bitlen n - 1) \<le> of_int n" and "rat_of_int n < 2 powi bitlen n"
proof -
  from bitlen_bounds [OF assms]
  have lo: "2 ^ nat (bitlen n - 1) \<le> n" and hi: "n < 2 ^ nat (bitlen n)"
    by simp_all
  from assms have pos: "1 \<le> bitlen n"
    by (simp add: bitlen_alt_def)
  from lo have "rat_of_int (2 ^ nat (bitlen n - 1)) \<le> of_int n"
    by (simp only: of_int_le_iff)
  with pos show "(2 :: rat) powi (bitlen n - 1) \<le> of_int n"
    by (simp add: power_int_def)
  from hi have "rat_of_int n < of_int (2 ^ nat (bitlen n))"
    by (simp only: of_int_less_iff)
  with pos show "rat_of_int n < 2 powi bitlen n"
    by (simp add: power_int_def)
qed

lemma exponent_bounds:
  assumes "a \<noteq> 0" and "b \<noteq> 0"
  shows "(2 :: rat) powi exponent a b * of_int \<bar>b\<bar> \<le> of_int \<bar>a\<bar>"
    and "rat_of_int \<bar>a\<bar> < 2 powi (exponent a b + 1) * of_int \<bar>b\<bar>"
proof -
  define A B where "A = \<bar>a\<bar>" and "B = \<bar>b\<bar>"
  with assms have pos: "0 < A" "0 < B" by simp_all
  define k where "k = bitlen A - bitlen B"
  note bA = bitlen_powi [OF pos(1)] and bB = bitlen_powi [OF pos(2)]
  have Bpos: "0 < rat_of_int B" using pos by simp
  have split1: "(2 :: rat) powi bitlen A = 2 powi (k + 1) * 2 powi (bitlen B - 1)"
    by (simp add: k_def power_int_add [symmetric])
  have split2: "(2 :: rat) powi (bitlen A - 1) = 2 powi (k - 1) * 2 powi bitlen B"
    by (simp add: k_def power_int_add [symmetric])
  have up: "rat_of_int A < 2 powi (k + 1) * of_int B"
  proof -
    have "rat_of_int A < 2 powi (k + 1) * 2 powi (bitlen B - 1)"
      using bA(2) by (simp only: split1)
    also have "\<dots> \<le> 2 powi (k + 1) * of_int B"
      using bB(1) by (intro mult_left_mono) simp_all
    finally show ?thesis .
  qed
  have low: "(2 :: rat) powi (k - 1) * of_int B \<le> of_int A"
  proof -
    have "(2 :: rat) powi (k - 1) * of_int B \<le> 2 powi (k - 1) * 2 powi bitlen B"
      using bB(2) by (intro mult_left_mono) simp_all
    also have "\<dots> \<le> of_int A"
      using bA(1) by (simp only: split2)
    finally show ?thesis .
  qed
  show "(2 :: rat) powi exponent a b * of_int \<bar>b\<bar> \<le> of_int \<bar>a\<bar>"
    using low by (auto simp: exponent_def Let_def A_def B_def k_def)
  show "rat_of_int \<bar>a\<bar> < 2 powi (exponent a b + 1) * of_int \<bar>b\<bar>"
    using up by (auto simp: exponent_def Let_def A_def B_def k_def not_le)
qed

lemma exponent_unique:
  assumes "a \<noteq> 0" and "b \<noteq> 0"
    and lo: "(2 :: rat) powi e * of_int \<bar>b\<bar> \<le> of_int \<bar>a\<bar>"
    and hi: "rat_of_int \<bar>a\<bar> < 2 powi (e + 1) * of_int \<bar>b\<bar>"
  shows "exponent a b = e"
proof (rule ccontr)
  assume ne: "exponent a b \<noteq> e"
  have Bpos: "0 < rat_of_int \<bar>b\<bar>" using assms(2) by simp
  note eb = exponent_bounds [OF assms(1,2)]
  show False
  proof (cases "exponent a b < e")
    case True
    then have "(2 :: rat) powi (exponent a b + 1) \<le> 2 powi e"
      by (intro power_int_increasing) simp_all
    then have "(2 :: rat) powi (exponent a b + 1) * of_int \<bar>b\<bar> \<le> 2 powi e * of_int \<bar>b\<bar>"
      using Bpos by (intro mult_right_mono) simp_all
    with eb(2) lo show False by linarith
  next
    case False
    with ne have "e + 1 \<le> exponent a b" by simp
    then have "(2 :: rat) powi (e + 1) \<le> 2 powi exponent a b"
      by (intro power_int_increasing) simp_all
    then have "(2 :: rat) powi (e + 1) * of_int \<bar>b\<bar> \<le> 2 powi exponent a b * of_int \<bar>b\<bar>"
      using Bpos by (intro mult_right_mono) simp_all
    with eb(1) hi show False by linarith
  qed
qed

lemma powi2_less_cancel: "(2 :: rat) powi m < 2 powi n \<Longrightarrow> m < n"
  using power_int_increasing [of n m "2 :: rat"] by (cases "m < n") simp_all

lemma powi2_le_cancel: "(2 :: rat) powi m \<le> 2 powi n \<Longrightarrow> m \<le> n"
  using power_int_strict_increasing [of n m "2 :: rat"] by (cases "m \<le> n") simp_all

lemma exponent_scale:
  assumes "n \<noteq> 0" and "b \<noteq> 0"
  shows "exponent (n * b) b = exponent n 1"
proof (rule exponent_unique)
  from assms show "n * b \<noteq> 0" "b \<noteq> 0" by simp_all
  have one: "(1 :: int) \<noteq> 0" by simp
  note eb = exponent_bounds [OF assms(1) one]
  have Bpos: "0 < rat_of_int \<bar>b\<bar>" using assms(2) by simp
  have "(2 :: rat) powi exponent n 1 * of_int \<bar>b\<bar> \<le> of_int \<bar>n\<bar> * of_int \<bar>b\<bar>"
    using eb(1) Bpos by (intro mult_right_mono) simp_all
  then show "(2 :: rat) powi exponent n 1 * of_int \<bar>b\<bar> \<le> of_int \<bar>n * b\<bar>"
    by (simp add: abs_mult)
  have "rat_of_int \<bar>n\<bar> * of_int \<bar>b\<bar> < 2 powi (exponent n 1 + 1) * of_int \<bar>b\<bar>"
    using eb(2) Bpos by (intro mult_strict_right_mono) simp_all
  then show "rat_of_int \<bar>n * b\<bar> < 2 powi (exponent n 1 + 1) * of_int \<bar>b\<bar>"
    by (simp add: abs_mult)
qed

lemma exponent_int_range:
  assumes "n \<noteq> 0" and "\<bar>n\<bar> \<le> 2 ^ 53"
  shows "0 \<le> exponent n 1" and "exponent n 1 \<le> 53"
proof -
  have one: "(1 :: int) \<noteq> 0" by simp
  note eb = exponent_bounds [OF assms(1) one]
  from assms(1) have "1 \<le> \<bar>n\<bar>"
    by simp
  then have "rat_of_int 1 \<le> of_int \<bar>n\<bar>"
    by (simp only: of_int_le_iff)
  with eb(2) have "(2 :: rat) powi 0 < 2 powi (exponent n 1 + 1)"
    by simp
  then have "0 < exponent n 1 + 1"
    by (rule powi2_less_cancel)
  then show "0 \<le> exponent n 1" by simp
  from assms(2) have "rat_of_int \<bar>n\<bar> \<le> of_int (2 ^ 53)"
    by (simp only: of_int_le_iff)
  with eb(1) have "(2 :: rat) powi exponent n 1 \<le> 2 powi 53"
    by simp
  then show "exponent n 1 \<le> 53"
    by (rule powi2_le_cancel)
qed

lemma nearest_double_int:
  assumes "\<bar>n\<bar> \<le> 2 ^ 53"
  shows "nearest_double n 1 = of_int n"
proof (cases "n = 0")
  case True
  then show ?thesis by (simp add: nearest_double_def)
next
  case False
  define e where "e = exponent n 1"
  note r = exponent_int_range [OF False assms, folded e_def]
  have "\<exists>m. rat_of_int n / 2 powi (e - 52) = of_int m"
  proof (cases "e \<le> 52")
    case True
    then have "rat_of_int n / 2 powi (e - 52) = of_int n * 2 powi (52 - e)"
      by (simp add: power_int_diff)
    also from True have "\<dots> = of_int (n * 2 ^ nat (52 - e))"
      by (simp add: power_int_def)
    finally show ?thesis ..
  next
    case False
    with r have e: "e = 53" by simp
    have one: "(1 :: int) \<noteq> 0" by simp
    from exponent_bounds(1) [OF \<open>n \<noteq> 0\<close> one] e
    have "rat_of_int (2 ^ 53) \<le> of_int \<bar>n\<bar>"
      by (simp add: e_def)
    then have "2 ^ 53 \<le> \<bar>n\<bar>"
      by (simp only: of_int_le_iff)
    with assms have "\<bar>n\<bar> = 2 ^ 53" by simp
    then have "n = 2 ^ 53 \<or> n = - (2 ^ 53)"
      by (auto simp: abs_if split: if_splits)
    then have "rat_of_int n / 2 powi (e - 52) = of_int (n div 2)"
      using e by auto
    then show ?thesis ..
  qed
  then obtain m where m: "rat_of_int n / 2 powi (e - 52) = of_int m" ..
  then have "rat_of_int n = of_int m * 2 powi (e - 52)"
    by (simp add: field_simps)
  with False r m show ?thesis
    by (simp add: nearest_double_def Let_def e_def [symmetric] max_def
                  round_half_even_of_int)
qed

lemma nearest_double_int_quotient:
  assumes "b \<noteq> 0" and "\<bar>n\<bar> \<le> 2 ^ 53"
  shows "nearest_double (n * b) b = of_int n"
proof (cases "n = 0")
  case True
  then show ?thesis by (simp add: nearest_double_def)
next
  case False
  with assms(1) have "rat_of_int (n * b) / of_int b = of_int n / of_int 1"
    by simp
  with False assms(1) have "nearest_double (n * b) b = nearest_double n 1"
    by (simp add: nearest_double_def exponent_scale del: of_int_mult)
  with assms(2) show ?thesis
    by (simp add: nearest_double_int)
qed

lemma truediv_int_quotient:
  assumes "b \<noteq> 0" and "\<bar>n\<bar> \<le> 2 ^ 53"
  shows "truediv (n * b) b = Inr (of_int n)"
proof -
  from assms(2) have "rat_of_int \<bar>n\<bar> \<le> of_int (2 ^ 53)"
    by (simp only: of_int_le_iff)
  then have "\<bar>rat_of_int n\<bar> < 2 ^ 1024 - 2 ^ 970"
    by simp
  with assms show ?thesis
    by (simp add: truediv_def nearest_double_int_quotient)
qed

lemma truediv_int: "\<bar>n\<bar> \<le> 2 ^ 53 \<Longrightarrow> truediv n 1 = Inr (of_int n)"
  using truediv_int_quotient [of 1 n] by simp

lemma nearest_double_error:
  assumes "b \<noteq> 0" and normal: "a \<noteq> 0 \<Longrightarrow> 2 powi (- 1022) \<le> \<bar>rat_of_int a / of_int b\<bar>"
  shows "\<bar>nearest_double a b - of_int a / of_int b\<bar> \<le> \<bar>rat_of_int a / of_int b\<bar> / 2 ^ 53"
proof (cases "a = 0")
  case True
  then show ?thesis by (simp add: nearest_double_def)
next
  case False
  define q where "q = rat_of_int a / of_int b"
  define e where "e = exponent a b"
  define u where "u = (2 :: rat) powi (e - 52)"
  have Bpos: "0 < rat_of_int \<bar>b\<bar>" using assms(1) by simp
  have absq: "\<bar>q\<bar> = of_int \<bar>a\<bar> / of_int \<bar>b\<bar>"
    by (simp add: q_def)
  note eb = exponent_bounds [OF False assms(1), folded e_def]
  from eb(1) Bpos have lo: "2 powi e \<le> \<bar>q\<bar>"
    by (simp add: absq pos_le_divide_eq)
  from eb(2) Bpos have hi: "\<bar>q\<bar> < 2 powi (e + 1)"
    by (simp add: absq pos_divide_less_eq)
  from normal [OF False] have "(2 :: rat) powi (- 1022) \<le> \<bar>q\<bar>"
    unfolding q_def .
  from this hi have "(2 :: rat) powi (- 1022) < 2 powi (e + 1)"
    by (rule le_less_trans)
  then have "- 1022 < e + 1"
    by (rule powi2_less_cancel)
  then have e: "max e (- 1022) = e" by simp
  have upos: "0 < u" by (simp add: u_def)
  define m where "m = round_half_even (q / u)"
  from False e have nd: "nearest_double a b = of_int m * u"
    by (simp add: nearest_double_def Let_def e_def [symmetric] u_def m_def q_def)
  have "of_int m * u - q = (of_int m - q / u) * u"
    using upos by (simp add: field_simps)
  then have "\<bar>of_int m * u - q\<bar> = \<bar>of_int m - q / u\<bar> * u"
    using upos by (simp add: abs_mult)
  also have "\<dots> \<le> 1 / 2 * u"
    using round_half_even_near [of "q / u"] upos
    by (intro mult_right_mono) (simp_all add: m_def)
  also have "1 / 2 * u = 2 powi e / 2 ^ 53"
    by (simp add: u_def power_int_diff)
  also have "\<dots> \<le> \<bar>q\<bar> / 2 ^ 53"
    using lo by (simp add: divide_right_mono)
  finally show ?thesis
    by (simp add: nd q_def)
qed

lemma nearest_double_eval:
  assumes "a \<noteq> 0" and "exponent a b = e" and "- 1022 \<le> e"
    and "round_half_even (of_int a / of_int b / 2 powi (e - 52)) = m"
  shows "nearest_double a b = of_int m * 2 powi (e - 52)"
  using assms by (simp add: nearest_double_def Let_def max_def)

lemma truediv_not_zero_division: "b \<noteq> 0 \<Longrightarrow> truediv a b \<noteq> Inl ZeroDivisionError"
  by (simp add: truediv_def)

lemma truediv_cases:
  "b \<noteq> 0 \<Longrightarrow> truediv a b = Inl OverflowError \<or> truediv a b = Inr (nearest_double a b)"
  by (simp add: truediv_def)

lemma truediv_bounded:
  assumes "0 < b" and "\<bar>a\<bar> \<le> 2 ^ 1023 * b"
  shows "truediv a b = Inr (nearest_double a b)"
proof -
  from assms(2) have "rat_of_int \<bar>a\<bar> \<le> of_int (2 ^ 1023 * b)"
    by (simp only: of_int_le_iff)
  with assms(1) have "\<bar>rat_of_int a / of_int b\<bar> \<le> 2 ^ 1023"
    by (simp add: pos_divide_le_eq)
  then have "\<bar>rat_of_int a / of_int b\<bar> < 2 ^ 1024 - 2 ^ 970"
    by simp
  with assms(1) show ?thesis
    by (simp add: truediv_def)
qed

lemma nearest_double_one_third: "nearest_double 1 3 = 6004799503160661 / 18014398509481984"
proof -
  have e: "exponent 1 3 = - 2" by code_simp
  have p: "(2 :: rat) powi (- 54) = 1 / 18014398509481984" by code_simp
  have r: "round_half_even (of_int 1 / of_int 3 / 2 powi (- 2 - 52)) = 6004799503160661"
    by (simp add: p) code_simp
  from nearest_double_eval [OF _ e _ r] show ?thesis
    by (simp add: p)
qed

lemma nearest_double_above_2_53: "nearest_double (2 ^ 53 + 1) 1 = 2 ^ 53"
proof -
  have e: "exponent (2 ^ 53 + 1) 1 = 53" by code_simp
  have r: "round_half_even (of_int (2 ^ 53 + 1) / of_int 1 / 2 powi (53 - 52)) = 2 ^ 52"
    by code_simp
  from nearest_double_eval [OF _ e _ r] show ?thesis
    by simp
qed

lemma nearest_double_three_halves: "nearest_double 3 2 = 3 / 2"
proof -
  have e: "exponent 3 2 = 0" by code_simp
  have p: "(2 :: rat) powi (- 52) = 1 / 4503599627370496" by code_simp
  have r: "round_half_even (of_int 3 / of_int 2 / 2 powi (0 - 52)) = 6755399441055744"
    by (simp add: p) code_simp
  from nearest_double_eval [OF _ e _ r] show ?thesis
    by (simp add: p)
qed

section \<open>Windows\<close>

lemma recent_Nil: "recent W [] = []"
  by (simp add: recent_def)

lemma length_recent: "length (recent W p) = min (nat W) (length p)"
  by (simp add: recent_def)

lemma recent_snoc_full:
  assumes "int (length (recent W p)) + 1 > W" and "0 \<le> W"
  shows "recent W (p @ [v]) = tl (recent W p @ [v])"
proof -
  from assms have ge: "nat W \<le> length p"
    by (simp add: length_recent)
  show ?thesis
  proof (cases "nat W = 0")
    case True
    then show ?thesis by (simp add: recent_def)
  next
    case False
    with ge have lt: "length p - nat W < length p" by simp
    from lt have "drop (length p - nat W) p = p ! (length p - nat W) # drop (Suc (length p - nat W)) p"
      by (simp add: Cons_nth_drop_Suc)
    then have "tl (drop (length p - nat W) p @ [v]) = drop (Suc (length p - nat W)) p @ [v]"
      by simp
    moreover have "Suc (length p - nat W) = Suc (length p) - nat W"
      using ge by simp
    ultimately show ?thesis
      using False by (simp add: recent_def)
  qed
qed

lemma recent_snoc_room:
  assumes "\<not> int (length (recent W p)) + 1 > W"
  shows "recent W (p @ [v]) = recent W p @ [v]"
proof -
  from assms have "length p < nat W"
    by (simp add: length_recent)
  then show ?thesis by (simp add: recent_def)
qed

lemma recent_snoc_nonempty: "1 \<le> W \<Longrightarrow> recent W (p @ [v]) \<noteq> []"
  by (simp add: recent_def)

lemma recent_snoc:
  assumes "0 \<le> W"
  shows "recent W (p @ [v]) =
         (if int (length (recent W p @ [v])) > W then tl (recent W p @ [v])
          else recent W p @ [v])"
proof (cases "int (length (recent W p)) + 1 > W")
  case True
  with assms show ?thesis by (simp add: recent_snoc_full)
next
  case False
  then have "recent W (p @ [v]) = recent W p @ [v]"
    by (rule recent_snoc_room)
  with False show ?thesis by simp
qed

lemma recent_take_full:
  assumes "i < length xs" and "nat W \<le> Suc i"
  shows "recent W (take (Suc i) xs) = take (nat W) (drop (Suc i - nat W) xs)"
proof -
  from assms have "length (take (Suc i) xs) = Suc i" by simp
  then have "recent W (take (Suc i) xs) = drop (Suc i - nat W) (take (Suc i) xs)"
    by (simp add: recent_def)
  also have "\<dots> = take (Suc i - (Suc i - nat W)) (drop (Suc i - nat W) xs)"
    by (simp only: drop_take)
  also from assms have "Suc i - (Suc i - nat W) = nat W" by simp
  finally show ?thesis .
qed

lemma deque_append_bounded:
  assumes "0 \<le> W"
  shows "deque_append \<lparr>items = recent W p, maxlen = Some W\<rparr> v =
         \<lparr>items = recent W (p @ [v]), maxlen = Some W\<rparr>"
  unfolding recent_snoc [OF assms, of p v]
  by (simp add: deque_append_def len_def)

lemma deque_append_unbounded:
  "deque_append \<lparr>items = w, maxlen = None\<rparr> v = \<lparr>items = w @ [v], maxlen = None\<rparr>"
  by (simp add: deque_append_def)

lemma trim_explicit:
  assumes "0 \<le> W"
  shows "(if len \<lparr>items = recent W p @ [v], maxlen = None\<rparr> > W
          then map_sum id snd (popleft \<lparr>items = recent W p @ [v], maxlen = None\<rparr>)
          else Inr \<lparr>items = recent W p @ [v], maxlen = None\<rparr>) =
         Inr \<lparr>items = recent W (p @ [v]), maxlen = None\<rparr>"
  unfolding recent_snoc [OF assms, of p v]
  by (cases "recent W p") (simp_all add: len_def popleft_def)

lemma trim_optimized:
  assumes "0 \<le> W"
  shows "(if len \<lparr>items = recent W p @ [v], maxlen = None\<rparr> > W
          then (case popleft \<lparr>items = recent W p @ [v], maxlen = None\<rparr> of
                  Inl e \<Rightarrow> Inl e
                | Inr (removed_value, window) \<Rightarrow>
                    Inr (window, sum_list (recent W p) + v - removed_value))
          else Inr (\<lparr>items = recent W p @ [v], maxlen = None\<rparr>, sum_list (recent W p) + v)) =
         Inr (\<lparr>items = recent W (p @ [v]), maxlen = None\<rparr>, sum_list (recent W (p @ [v])))"
  unfolding recent_snoc [OF assms, of p v]
  by (cases "recent W p") (simp_all add: len_def popleft_def)

lemma window_average_deque:
  "truediv (deque_sum \<lparr>items = recent W p, maxlen = m\<rparr>) (len \<lparr>items = recent W p, maxlen = m\<rparr>) =
   window_average W p"
  by (simp add: window_average_def deque_sum_def len_def)

lemma window_average_running_sum:
  "truediv (sum_list (recent W p)) (len \<lparr>items = recent W p, maxlen = m\<rparr>) = window_average W p"
  by (simp add: window_average_def len_def)

lemma moving_average_body:
  assumes "0 \<le> W"
  shows "body moving_average_code W \<lparr>items = recent W p, maxlen = Some W\<rparr> v =
         (case window_average W (p @ [v]) of
            Inl e \<Rightarrow> Inl e
          | Inr a \<Rightarrow> Inr (a, \<lparr>items = recent W (p @ [v]), maxlen = Some W\<rparr>))"
  using assms
  by (simp add: moving_average_code_def deque_append_bounded window_average_deque)

lemma moving_average_explicit_body:
  assumes "0 \<le> W"
  shows "body moving_average_explicit_code W \<lparr>items = recent W p, maxlen = None\<rparr> v =
         (case window_average W (p @ [v]) of
            Inl e \<Rightarrow> Inl e
          | Inr a \<Rightarrow> Inr (a, \<lparr>items = recent W (p @ [v]), maxlen = None\<rparr>))"
  using assms
  by (simp add: moving_average_explicit_code_def deque_append_unbounded trim_explicit
                window_average_deque del: map_sum.simps)

lemma moving_average_optimized_body:
  assumes "0 \<le> W"
  shows "body moving_average_optimized_code W
           (\<lparr>items = recent W p, maxlen = None\<rparr>, sum_list (recent W p)) v =
         (case window_average W (p @ [v]) of
            Inl e \<Rightarrow> Inl e
          | Inr a \<Rightarrow>
              Inr (a, (\<lparr>items = recent W (p @ [v]), maxlen = None\<rparr>,
                       sum_list (recent W (p @ [v])))))"
  using assms
  by (simp add: moving_average_optimized_code_def deque_append_unbounded trim_optimized
                window_average_running_sum)

lemma drain_Raise:
  "gen_next g = (Raise e, g') \<Longrightarrow>
   drain g = \<lparr>outputs = [], raised = Some e, unread = source g'\<rparr>"
  by (subst drain.simps) simp

lemma drain_StopIteration:
  "gen_next g = (StopIteration, g') \<Longrightarrow>
   drain g = \<lparr>outputs = [], raised = None, unread = source g'\<rparr>"
  by (subst drain.simps) simp

lemma after_0: "after 0 g = g"
  by (simp add: after_def)

lemma after_Suc: "after (Suc n) g = snd (gen_next (after n g))"
  by (simp add: after_def)

lemma drain_loop:
  assumes step: "\<And>p v. body c W (st p) v =
      (case window_average W (p @ [v]) of Inl e \<Rightarrow> Inl e | Inr a \<Rightarrow> Inr (a, st (p @ [v])))"
  shows "drain \<lparr>code = c, source = s, wsize = W, frame = Suspended (st p)\<rparr> = averages W p s"
proof (induction s arbitrary: p)
  case Nil
  show ?case
    by (subst drain.simps) (simp add: gen_next_def for_loop_def)
next
  case (Cons v s)
  show ?case
  proof (cases "window_average W (p @ [v])")
    case (Inl e)
    then show ?thesis
      by (subst drain.simps) (simp add: gen_next_def for_loop_def step)
  next
    case (Inr a)
    then have "drain \<lparr>code = c, source = v # s, wsize = W, frame = Suspended (st p)\<rparr> =
        (let r = drain \<lparr>code = c, source = s, wsize = W, frame = Suspended (st (p @ [v]))\<rparr>
         in r\<lparr>outputs := a # outputs r\<rparr>)"
      by (subst drain.simps) (simp add: gen_next_def for_loop_def step)
    with Inr show ?thesis
      by (simp add: Cons.IH)
  qed
qed

lemma drain_call:
  assumes pro: "prologue c W = Inr (st [])"
    and step: "\<And>p v. body c W (st p) v =
      (case window_average W (p @ [v]) of Inl e \<Rightarrow> Inl e | Inr a \<Rightarrow> Inr (a, st (p @ [v])))"
  shows "drain (call c xs W) = averages W [] xs"
proof -
  have "gen_next (call c xs W) =
        gen_next \<lparr>code = c, source = xs, wsize = W, frame = Suspended (st [])\<rparr>"
    by (simp add: gen_next_def for_loop_def call_def pro split: list.splits sum.splits)
  then have "drain (call c xs W) =
             drain \<lparr>code = c, source = xs, wsize = W, frame = Suspended (st [])\<rparr>"
    by (subst drain.simps, subst (2) drain.simps) simp
  with drain_loop [of c W st xs "[]", OF step] show ?thesis
    by simp
qed

lemma moving_average_prologue:
  "0 \<le> W \<Longrightarrow> W < 2 ^ 63 \<Longrightarrow>
   prologue moving_average_code W = Inr \<lparr>items = recent W [], maxlen = Some W\<rparr>"
  by (simp add: moving_average_code_def deque_new_def recent_Nil)

lemma moving_average_explicit_prologue:
  "prologue moving_average_explicit_code W = Inr \<lparr>items = recent W [], maxlen = None\<rparr>"
  by (simp add: moving_average_explicit_code_def deque_new_def recent_Nil)

lemma moving_average_optimized_prologue:
  "prologue moving_average_optimized_code W =
   Inr (\<lparr>items = recent W [], maxlen = None\<rparr>, sum_list (recent W []))"
  by (simp add: moving_average_optimized_code_def deque_new_def recent_Nil)

lemma moving_average_drain:
  assumes "0 \<le> W" and "W < 2 ^ 63"
  shows "drain (moving_average xs W) = averages W [] xs"
  unfolding moving_average_def
  using assms
  by (intro drain_call [where st = "\<lambda>p. \<lparr>items = recent W p, maxlen = Some W\<rparr>"]
            moving_average_prologue moving_average_body)

lemma moving_average_explicit_drain:
  assumes "0 \<le> W"
  shows "drain (moving_average_explicit xs W) = averages W [] xs"
  unfolding moving_average_explicit_def
  using assms
  by (intro drain_call [where st = "\<lambda>p. \<lparr>items = recent W p, maxlen = None\<rparr>"]
            moving_average_explicit_prologue moving_average_explicit_body)

lemma moving_average_optimized_drain:
  assumes "0 \<le> W"
  shows "drain (moving_average_optimized xs W) = averages W [] xs"
  unfolding moving_average_optimized_def
  using assms
  by (intro drain_call
        [where st = "\<lambda>p. (\<lparr>items = recent W p, maxlen = None\<rparr>, sum_list (recent W p))"]
        moving_average_optimized_prologue moving_average_optimized_body)

section \<open>The run of a sliding-window averager\<close>

lemma averages_nth:
  "i < length (outputs (averages W p s)) \<Longrightarrow>
   window_average W (p @ take (Suc i) s) = Inr (outputs (averages W p s) ! i)"
proof (induction s arbitrary: p i)
  case Nil
  then show ?case by simp
next
  case (Cons v s)
  show ?case
  proof (cases "window_average W (p @ [v])")
    case (Inl e)
    with Cons.prems show ?thesis by simp
  next
    case (Inr a)
    show ?thesis
    proof (cases i)
      case 0
      with Inr show ?thesis by (simp add: Let_def)
    next
      case (Suc j)
      with Cons.prems Inr have "j < length (outputs (averages W (p @ [v]) s))"
        by (simp add: Let_def)
      from Cons.IH [OF this] Inr Suc show ?thesis
        by (simp add: Let_def)
    qed
  qed
qed

lemma averages_length_le: "length (outputs (averages W p s)) \<le> length s"
  by (induction s arbitrary: p) (auto simp: Let_def split: sum.splits intro: le_SucI)

lemma averages_complete:
  "raised (averages W p s) = None \<Longrightarrow>
   length (outputs (averages W p s)) = length s \<and> unread (averages W p s) = []"
  by (induction s arbitrary: p) (auto simp: Let_def split: sum.splits)

lemma window_average_raises:
  assumes "1 \<le> W" and "p \<noteq> []"
  shows "window_average W p = Inl OverflowError \<or>
         window_average W p =
           Inr (nearest_double (sum_list (recent W p)) (int (length (recent W p))))"
proof -
  from assms have "int (length (recent W p)) \<noteq> 0"
    by (simp add: length_recent)
  then show ?thesis
    unfolding window_average_def by (rule truediv_cases)
qed

lemma averages_raised:
  "1 \<le> W \<Longrightarrow>
   raised (averages W p s) = None \<or> raised (averages W p s) = Some OverflowError"
proof (induction s arbitrary: p)
  case Nil
  show ?case by simp
next
  case (Cons v s)
  from window_average_raises [OF Cons.prems, of "p @ [v]"] Cons.IH [OF Cons.prems, of "p @ [v]"]
  show ?case
    by (auto simp: Let_def)
qed

lemma sum_list_abs_bound:
  "\<forall>x\<in>set w. \<bar>x\<bar> \<le> M \<Longrightarrow> \<bar>sum_list w\<bar> \<le> M * int (length w)"
proof (induction w)
  case Nil
  show ?case by simp
next
  case (Cons x w)
  then have "\<bar>x\<bar> \<le> M" and "\<bar>sum_list w\<bar> \<le> M * int (length w)"
    by simp_all
  then show ?case
    by (simp add: algebra_simps)
qed

lemma window_average_bounded:
  assumes "1 \<le> W" and "p \<noteq> []" and "\<forall>x\<in>set p. \<bar>x\<bar> \<le> 2 ^ 1023"
  shows "window_average W p =
         Inr (nearest_double (sum_list (recent W p)) (int (length (recent W p))))"
proof -
  from assms(1,2) have pos: "0 < int (length (recent W p))"
    by (simp add: length_recent)
  have "set (recent W p) \<subseteq> set p"
    unfolding recent_def by (rule set_drop_subset)
  with assms(3) have "\<forall>x\<in>set (recent W p). \<bar>x\<bar> \<le> 2 ^ 1023"
    by blast
  then have "\<bar>sum_list (recent W p)\<bar> \<le> 2 ^ 1023 * int (length (recent W p))"
    by (rule sum_list_abs_bound)
  with pos show ?thesis
    unfolding window_average_def by (rule truediv_bounded)
qed

lemma averages_bounded:
  "1 \<le> W \<Longrightarrow> \<forall>x\<in>set p \<union> set s. \<bar>x\<bar> \<le> 2 ^ 1023 \<Longrightarrow>
   raised (averages W p s) = None"
proof (induction s arbitrary: p)
  case Nil
  show ?case by simp
next
  case (Cons v s)
  from Cons.prems have "\<forall>x\<in>set (p @ [v]). \<bar>x\<bar> \<le> 2 ^ 1023"
    by simp
  from window_average_bounded [OF Cons.prems(1) _ this]
  obtain a where a: "window_average W (p @ [v]) = Inr a"
    by simp
  from Cons.prems have "\<forall>x\<in>set (p @ [v]) \<union> set s. \<bar>x\<bar> \<le> 2 ^ 1023"
    by simp
  from Cons.IH [OF Cons.prems(1) this] a show ?case
    by (simp add: Let_def)
qed

lemma window_average_full:
  assumes "1 \<le> W" and "i < length xs" and "nat W \<le> Suc i"
  shows "window_average W (take (Suc i) xs) =
         truediv (sum_list (take (nat W) (drop (Suc i - nat W) xs))) W"
proof -
  from assms have "length (take (nat W) (drop (Suc i - nat W) xs)) = nat W"
    by simp
  with assms show ?thesis
    by (simp add: window_average_def recent_take_full)
qed

lemma window_average_first: "1 \<le> W \<Longrightarrow> window_average W [x] = truediv x 1"
  by (simp add: window_average_def recent_def)

lemma window_average_one: "window_average 1 (p @ [v]) = truediv v 1"
  by (simp add: window_average_def recent_def)

lemma averages_one:
  "\<forall>x\<in>set s. \<bar>x\<bar> \<le> 2 ^ 53 \<Longrightarrow>
   averages 1 p s = \<lparr>outputs = map rat_of_int s, raised = None, unread = []\<rparr>"
  by (induction s arbitrary: p) (simp_all add: window_average_one truediv_int)

section \<open>Generators that follow the stream step by step\<close>

lemma after_invariant:
  assumes init: "\<And>s. prologue c W = Inr s \<Longrightarrow> R s"
    and step: "\<And>s v a s'. R s \<Longrightarrow> body c W s v = Inr (a, s') \<Longrightarrow> R s' \<and> N s'"
  shows "code (after n (call c xs W)) = c \<and> wsize (after n (call c xs W)) = W \<and>
         (\<forall>s. frame (after n (call c xs W)) = Suspended s \<longrightarrow> R s \<and> N s)"
proof (induction n)
  case 0
  show ?case by (simp add: after_0 call_def)
next
  case (Suc n)
  define g where "g = after n (call c xs W)"
  from Suc have g: "code g = c" "wsize g = W"
    and sus: "\<And>s. frame g = Suspended s \<Longrightarrow> R s"
    by (simp_all add: g_def)
  have loop: "code (snd (for_loop s g)) = c \<and> wsize (snd (for_loop s g)) = W \<and>
      (\<forall>s'. frame (snd (for_loop s g)) = Suspended s' \<longrightarrow> R s' \<and> N s')" if "R s" for s
    using step [OF that] g
    by (auto simp: for_loop_def split: list.splits sum.splits)
  have "code (snd (gen_next g)) = c \<and> wsize (snd (gen_next g)) = W \<and>
      (\<forall>s'. frame (snd (gen_next g)) = Suspended s' \<longrightarrow> R s' \<and> N s')"
  proof (cases "frame g")
    case Created
    show ?thesis
    proof (cases "prologue c W")
      case (Inl e)
      with Created g show ?thesis by (simp add: gen_next_def)
    next
      case (Inr s0)
      with Created g loop [OF init [OF Inr]] show ?thesis by (simp add: gen_next_def)
    qed
  next
    case (Suspended s)
    with loop [OF sus [OF Suspended]] show ?thesis by (simp add: gen_next_def)
  next
    case Closed
    with g show ?thesis by (simp add: gen_next_def)
  qed
  then show ?case
    by (simp add: after_Suc g_def)
qed

lemma next_after_safe:
  assumes init: "\<And>s. prologue c W = Inr s \<Longrightarrow> R s"
    and step: "\<And>s v a s'. R s \<Longrightarrow> body c W s v = Inr (a, s') \<Longrightarrow> R s' \<and> N s'"
    and pro: "prologue c W \<noteq> Inl ZeroDivisionError"
    and safe: "\<And>s v. R s \<Longrightarrow> body c W s v \<noteq> Inl ZeroDivisionError"
  shows "fst (gen_next (after n (call c xs W))) \<noteq> Raise ZeroDivisionError"
proof -
  define g where "g = after n (call c xs W)"
  from after_invariant [of c W R N n xs, OF init step]
  have g: "code g = c" "wsize g = W" and sus: "\<And>s. frame g = Suspended s \<Longrightarrow> R s"
    by (simp_all add: g_def)
  have loop: "fst (for_loop s g) \<noteq> Raise ZeroDivisionError" if "R s" for s
    using safe [OF that] g
    by (auto simp: for_loop_def split: list.splits sum.splits)
  have "fst (gen_next g) \<noteq> Raise ZeroDivisionError"
  proof (cases "frame g")
    case Created
    show ?thesis
    proof (cases "prologue c W")
      case (Inl e)
      with Created g pro show ?thesis by (auto simp: gen_next_def)
    next
      case (Inr s0)
      with Created g loop [OF init [OF Inr]] show ?thesis by (simp add: gen_next_def)
    qed
  next
    case (Suspended s)
    with loop [OF sus [OF Suspended]] show ?thesis by (simp add: gen_next_def)
  next
    case Closed
    then show ?thesis by (simp add: gen_next_def)
  qed
  then show ?thesis by (simp add: g_def)
qed

lemma deque_append_Some:
  assumes "1 \<le> W" and "maxlen d = Some W"
  shows "maxlen (deque_append d v) = Some W" and "items (deque_append d v) \<noteq> []"
  using assms by (cases "items d"; simp add: deque_append_def len_def Let_def)+

lemma deque_append_None:
  assumes "maxlen d = None"
  shows "deque_append d v = d\<lparr>items := items d @ [v]\<rparr>"
  using assms by (simp add: deque_append_def)

lemma moving_average_step:
  assumes "1 \<le> W" and "maxlen d = Some W"
  shows "body moving_average_code W d v \<noteq> Inl ZeroDivisionError"
    and "body moving_average_code W d v = Inr (a, d') \<Longrightarrow> maxlen d' = Some W \<and> items d' \<noteq> []"
  using deque_append_Some [OF assms, of v]
  by (auto simp: moving_average_code_def Let_def truediv_def len_def split: sum.splits if_splits)

lemma moving_average_explicit_step:
  assumes "1 \<le> W" and "maxlen d = None"
  shows "body moving_average_explicit_code W d v \<noteq> Inl ZeroDivisionError"
    and "body moving_average_explicit_code W d v = Inr (a, d') \<Longrightarrow>
         maxlen d' = None \<and> items d' \<noteq> []"
  using assms
  by (cases "items d";
      auto simp: moving_average_explicit_code_def deque_append_None Let_def truediv_def len_def
                 popleft_def split: sum.splits if_splits)+

lemma moving_average_optimized_step:
  assumes "1 \<le> W" and "maxlen d = None" and "rs = sum_list (items d)"
    and "int (length (items d)) \<le> W"
  shows "body moving_average_optimized_code W (d, rs) v \<noteq> Inl ZeroDivisionError"
    and "body moving_average_optimized_code W (d, rs) v = Inr (a, (d', rs')) \<Longrightarrow>
         (maxlen d' = None \<and> rs' = sum_list (items d') \<and> int (length (items d')) \<le> W) \<and>
         items d' \<noteq> []"
  using assms
  by (cases "items d";
      auto simp: moving_average_optimized_code_def deque_append_None Let_def truediv_def len_def
                 popleft_def split: sum.splits if_splits)+

lemma gen_next_call_Cons:
  assumes pro: "prologue c W = Inr (st [])"
    and step: "\<And>p v. body c W (st p) v =
      (case window_average W (p @ [v]) of Inl e \<Rightarrow> Inl e | Inr a \<Rightarrow> Inr (a, st (p @ [v])))"
  shows "fst (gen_next (call c (x # xs) W)) =
         (case window_average W [x] of Inl e \<Rightarrow> Raise e | Inr a \<Rightarrow> Yield a)"
  using step [of "[]" x]
  by (simp add: gen_next_def for_loop_def call_def pro split: sum.splits)

lemma moving_average_first_next:
  assumes "1 \<le> W" and "W < 2 ^ 63"
  shows "fst (gen_next (moving_average (x # xs) W)) =
         (case truediv x 1 of Inl e \<Rightarrow> Raise e | Inr a \<Rightarrow> Yield a)"
proof -
  from assms have "fst (gen_next (call moving_average_code (x # xs) W)) =
      (case window_average W [x] of Inl e \<Rightarrow> Raise e | Inr a \<Rightarrow> Yield a)"
    by (intro gen_next_call_Cons [where st = "\<lambda>p. \<lparr>items = recent W p, maxlen = Some W\<rparr>"]
              moving_average_prologue moving_average_body) simp_all
  with assms(1) show ?thesis
    by (simp add: moving_average_def window_average_first)
qed

lemma small_quotient_normal:
  assumes "1 \<le> W" and "W < 2 ^ 63" and "S \<noteq> 0"
  shows "2 powi (- 1022) \<le> \<bar>rat_of_int S / of_int W\<bar>"
proof -
  have "(2 :: rat) powi (- 1022) \<le> 2 powi (- 63)"
    by (intro power_int_increasing) simp_all
  also have "\<dots> = 1 / 2 ^ 63"
    by (simp add: power_int_def field_simps)
  also have "\<dots> \<le> 1 / rat_of_int W"
  proof -
    from assms(2) have "rat_of_int W \<le> of_int (2 ^ 63)"
      by (simp only: of_int_le_iff)
    with assms(1) show ?thesis
      by (simp add: frac_le)
  qed
  also have "\<dots> \<le> \<bar>rat_of_int S\<bar> / of_int W"
  proof -
    from assms(3) have "1 \<le> \<bar>S\<bar>" by simp
    then have "rat_of_int 1 \<le> of_int \<bar>S\<bar>"
      by (simp only: of_int_le_iff)
    with assms(1) show ?thesis
      by (simp add: divide_right_mono)
  qed
  also from assms(1) have "\<dots> = \<bar>rat_of_int S / of_int W\<bar>"
    by simp
  finally show ?thesis .
qed

lemma truediv_one_third: "truediv 1 3 = Inr (6004799503160661 / 18014398509481984)"
  by (simp add: truediv_def nearest_double_one_third)

lemma truediv_three_halves: "truediv 3 2 = Inr (3 / 2)"
  by (simp add: truediv_def nearest_double_three_halves)

lemma truediv_above_2_53: "truediv (2 ^ 53 + 1) 1 = Inr (2 ^ 53)"
  using nearest_double_above_2_53 by (simp add: truediv_def)

lemma truediv_overflow: "truediv (10 ^ 400) 1 = Inl OverflowError"
  by (simp add: truediv_def)

lemma after_call_suspended:
  assumes pro: "prologue c W = Inr (st [])"
    and step: "\<And>p v. body c W (st p) v =
      (case window_average W (p @ [v]) of Inl e \<Rightarrow> Inl e | Inr a \<Rightarrow> Inr (a, st (p @ [v])))"
    and ok: "\<And>k. k < length xs \<Longrightarrow> \<exists>a. window_average W (take (Suc k) xs) = Inr a"
  shows "n \<le> length xs \<Longrightarrow> after n (call c xs W) =
         (if n = 0 then call c xs W
          else \<lparr>code = c, source = drop n xs, wsize = W, frame = Suspended (st (take n xs))\<rparr>)"
proof (induction n)
  case 0
  show ?case by (simp add: after_0)
next
  case (Suc n)
  then have n: "n < length xs" by simp
  then have dr: "drop n xs = xs ! n # drop (Suc n) xs"
    and tk: "take (Suc n) xs = take n xs @ [xs ! n]"
    by (simp_all add: Cons_nth_drop_Suc take_Suc_conv_app_nth)
  from ok [OF n] obtain a where a: "window_average W (take n xs @ [xs ! n]) = Inr a"
    by (auto simp: tk)
  show ?case
  proof (cases "n = 0")
    case True
    with n obtain x xs' where xs: "xs = x # xs'"
      by (cases xs) auto
    with True a step [of "[]" x] show ?thesis
      by (simp add: after_Suc after_0 gen_next_def for_loop_def call_def pro)
  next
    case False
    with n Suc.IH have "after n (call c xs W) =
        \<lparr>code = c, source = drop n xs, wsize = W, frame = Suspended (st (take n xs))\<rparr>"
      by simp
    with dr tk a step [of "take n xs" "xs ! n"] show ?thesis
      by (simp add: after_Suc gen_next_def for_loop_def)
  qed
qed

lemma window_average_take_bounded:
  assumes "1 \<le> W" and "\<forall>x\<in>set xs. \<bar>x\<bar> \<le> 2 ^ 1023" and "k < length xs"
  shows "\<exists>a. window_average W (take (Suc k) xs) = Inr a"
proof -
  from assms(3) have "take (Suc k) xs \<noteq> []"
    by (cases xs) auto
  moreover from assms(2) have "\<forall>x\<in>set (take (Suc k) xs). \<bar>x\<bar> \<le> 2 ^ 1023"
    by (meson in_set_takeD)
  ultimately show ?thesis
    using window_average_bounded [OF assms(1)] by blast
qed

lemma moving_average_frame_after:
  assumes "1 \<le> W" and "W < 2 ^ 63" and "\<forall>x\<in>set xs. \<bar>x\<bar> \<le> 2 ^ 1023"
    and "0 < n" and "n \<le> length xs"
  shows "frame (after n (moving_average xs W)) =
         Suspended \<lparr>items = recent W (take n xs), maxlen = Some W\<rparr>"
proof -
  from assms(1,2) have "after n (call moving_average_code xs W) =
      (if n = 0 then call moving_average_code xs W
       else \<lparr>code = moving_average_code, source = drop n xs, wsize = W,
             frame = Suspended \<lparr>items = recent W (take n xs), maxlen = Some W\<rparr>\<rparr>)"
    by (intro after_call_suspended [where st = "\<lambda>p. \<lparr>items = recent W p, maxlen = Some W\<rparr>"]
              moving_average_prologue moving_average_body
              window_average_take_bounded [OF assms(1,3)] assms(5)) simp_all
  with assms(4) show ?thesis
    by (simp add: moving_average_def)
qed

lemma moving_average_explicit_frame_after:
  assumes "1 \<le> W" and "\<forall>x\<in>set xs. \<bar>x\<bar> \<le> 2 ^ 1023"
    and "0 < n" and "n \<le> length xs"
  shows "frame (after n (moving_average_explicit xs W)) =
         Suspended \<lparr>items = recent W (take n xs), maxlen = None\<rparr>"
proof -
  from assms(1) have "after n (call moving_average_explicit_code xs W) =
      (if n = 0 then call moving_average_explicit_code xs W
       else \<lparr>code = moving_average_explicit_code, source = drop n xs, wsize = W,
             frame = Suspended \<lparr>items = recent W (take n xs), maxlen = None\<rparr>\<rparr>)"
    by (intro after_call_suspended [where st = "\<lambda>p. \<lparr>items = recent W p, maxlen = None\<rparr>"]
              moving_average_explicit_prologue moving_average_explicit_body
              window_average_take_bounded [OF assms(1,2)] assms(4)) simp_all
  with assms(3) show ?thesis
    by (simp add: moving_average_explicit_def)
qed

lemma moving_average_optimized_frame_after:
  assumes "1 \<le> W" and "\<forall>x\<in>set xs. \<bar>x\<bar> \<le> 2 ^ 1023"
    and "0 < n" and "n \<le> length xs"
  shows "frame (after n (moving_average_optimized xs W)) =
         Suspended (\<lparr>items = recent W (take n xs), maxlen = None\<rparr>,
                    sum_list (recent W (take n xs)))"
proof -
  from assms(1) have "after n (call moving_average_optimized_code xs W) =
      (if n = 0 then call moving_average_optimized_code xs W
       else \<lparr>code = moving_average_optimized_code, source = drop n xs, wsize = W,
             frame = Suspended (\<lparr>items = recent W (take n xs), maxlen = None\<rparr>,
                                sum_list (recent W (take n xs)))\<rparr>)"
    by (intro after_call_suspended
          [where st = "\<lambda>p. (\<lparr>items = recent W p, maxlen = None\<rparr>, sum_list (recent W p))"]
          moving_average_optimized_prologue moving_average_optimized_body
          window_average_take_bounded [OF assms(1,2)] assms(4)) simp_all
  with assms(3) show ?thesis
    by (simp add: moving_average_optimized_def)
qed

lemma bounded_frame_invariant:
  assumes "1 \<le> W"
  shows "\<forall>d. frame (after n (moving_average xs W)) = Suspended d \<longrightarrow>
           maxlen d = Some W \<and> items d \<noteq> []"
    and "fst (gen_next (after n (moving_average xs W))) \<noteq> Raise ZeroDivisionError"
proof -
  have init: "maxlen s = Some W" if "prologue moving_average_code W = Inr s" for s
    using that by (auto simp: moving_average_code_def deque_new_def split: if_splits)
  have step: "maxlen s' = Some W \<and> items s' \<noteq> []"
    if "maxlen s = Some W" "body moving_average_code W s v = Inr (a, s')" for s v a s'
    using moving_average_step(2) [OF assms that] .
  have pro: "prologue moving_average_code W \<noteq> Inl ZeroDivisionError"
    by (simp add: moving_average_code_def deque_new_def)
  have safe: "body moving_average_code W s v \<noteq> Inl ZeroDivisionError"
    if "maxlen s = Some W" for s v
    using moving_average_step(1) [OF assms that] .
  from after_invariant [of moving_average_code W "\<lambda>d. maxlen d = Some W" "\<lambda>d. items d \<noteq> []" n xs,
      OF init step]
  show "\<forall>d. frame (after n (moving_average xs W)) = Suspended d \<longrightarrow>
           maxlen d = Some W \<and> items d \<noteq> []"
    by (simp add: moving_average_def)
  from next_after_safe [of moving_average_code W "\<lambda>d. maxlen d = Some W" "\<lambda>d. items d \<noteq> []" n xs,
      OF init step pro safe]
  show "fst (gen_next (after n (moving_average xs W))) \<noteq> Raise ZeroDivisionError"
    by (simp add: moving_average_def)
qed

lemma explicit_frame_invariant:
  assumes "1 \<le> W"
  shows "\<forall>d. frame (after n (moving_average_explicit xs W)) = Suspended d \<longrightarrow>
           maxlen d = None \<and> items d \<noteq> []"
    and "fst (gen_next (after n (moving_average_explicit xs W))) \<noteq> Raise ZeroDivisionError"
proof -
  have init: "maxlen s = None" if "prologue moving_average_explicit_code W = Inr s" for s
    using that by (auto simp: moving_average_explicit_code_def deque_new_def)
  have step: "maxlen s' = None \<and> items s' \<noteq> []"
    if "maxlen s = None" "body moving_average_explicit_code W s v = Inr (a, s')" for s v a s'
    using moving_average_explicit_step(2) [OF assms that] .
  have pro: "prologue moving_average_explicit_code W \<noteq> Inl ZeroDivisionError"
    by (simp add: moving_average_explicit_code_def deque_new_def)
  have safe: "body moving_average_explicit_code W s v \<noteq> Inl ZeroDivisionError"
    if "maxlen s = None" for s v
    using moving_average_explicit_step(1) [OF assms that] .
  from after_invariant [of moving_average_explicit_code W "\<lambda>d. maxlen d = None"
      "\<lambda>d. items d \<noteq> []" n xs, OF init step]
  show "\<forall>d. frame (after n (moving_average_explicit xs W)) = Suspended d \<longrightarrow>
           maxlen d = None \<and> items d \<noteq> []"
    by (simp add: moving_average_explicit_def)
  from next_after_safe [of moving_average_explicit_code W "\<lambda>d. maxlen d = None"
      "\<lambda>d. items d \<noteq> []" n xs, OF init step pro safe]
  show "fst (gen_next (after n (moving_average_explicit xs W))) \<noteq> Raise ZeroDivisionError"
    by (simp add: moving_average_explicit_def)
qed

lemma optimized_frame_invariant:
  assumes "1 \<le> W"
  shows "\<forall>s. frame (after n (moving_average_optimized xs W)) = Suspended s \<longrightarrow>
           running_sum_invariant W s \<and> items (fst s) \<noteq> []"
    and "fst (gen_next (after n (moving_average_optimized xs W))) \<noteq> Raise ZeroDivisionError"
proof -
  have init: "running_sum_invariant W s"
    if "prologue moving_average_optimized_code W = Inr s" for s
    using that assms
    by (auto simp: moving_average_optimized_code_def deque_new_def running_sum_invariant_def)
  have step: "running_sum_invariant W s' \<and> items (fst s') \<noteq> []"
    if "running_sum_invariant W s" "body moving_average_optimized_code W s v = Inr (a, s')"
    for s v a s'
  proof -
    obtain d rs d' rs' where s: "s = (d, rs)" "s' = (d', rs')"
      by (cases s, cases s') auto
    with that moving_average_optimized_step(2) [OF assms, of d rs v a d' rs'] show ?thesis
      by (simp add: running_sum_invariant_def)
  qed
  have pro: "prologue moving_average_optimized_code W \<noteq> Inl ZeroDivisionError"
    by (simp add: moving_average_optimized_code_def deque_new_def)
  have safe: "body moving_average_optimized_code W s v \<noteq> Inl ZeroDivisionError"
    if "running_sum_invariant W s" for s v
  proof -
    obtain d rs where s: "s = (d, rs)"
      by (cases s) auto
    with that moving_average_optimized_step(1) [OF assms, of d rs v] show ?thesis
      by (simp add: running_sum_invariant_def)
  qed
  from after_invariant [of moving_average_optimized_code W "running_sum_invariant W"
      "\<lambda>s. items (fst s) \<noteq> []" n xs, OF init step]
  show "\<forall>s. frame (after n (moving_average_optimized xs W)) = Suspended s \<longrightarrow>
           running_sum_invariant W s \<and> items (fst s) \<noteq> []"
    by (simp add: moving_average_optimized_def)
  from next_after_safe [of moving_average_optimized_code W "running_sum_invariant W"
      "\<lambda>s. items (fst s) \<noteq> []" n xs, OF init step pro safe]
  show "fst (gen_next (after n (moving_average_optimized xs W))) \<noteq> Raise ZeroDivisionError"
    by (simp add: moving_average_optimized_def)
qed

section \<open>The claims about the moving-average filter\<close>

text \<open>
  C1, as stated, fails. The average is a float, the double nearest to the exact mean. For
  the stream \<open>[0, 0, 1]\<close> and \<open>W = 3\<close> the third value yielded is
  \<open>6004799503160661 / 2\<^sup>5\<^sup>4\<close> (printed \<^verbatim>\<open>0.3333333333333333\<close>), which is not the mean
  \<open>1 / 3\<close> of the three values.
\<close>

theorem moving_average_exact_mean_counterexample:
  "outputs (drain (moving_average [0, 0, 1] 3)) ! 2 = 6004799503160661 / 18014398509481984 \<and>
   outputs (drain (moving_average [0, 0, 1] 3)) ! 2 \<noteq> mean [0, 0, 1]"
proof -
  have a: "truediv 0 1 = Inr 0" using truediv_int [of 0] by simp
  have b: "truediv 0 2 = Inr 0" using truediv_int_quotient [of 2 0] by simp
  have "drain (moving_average [0, 0, 1] 3) = averages 3 [] [0, 0, 1]"
    by (simp add: moving_average_drain)
  then show ?thesis
    by (simp add: window_average_def recent_def a b truediv_one_third mean_def)
qed

text \<open>
  C1, amended. For every window size \<open>1 \<le> W < 2\<^sup>6\<^sup>3\<close>, every input and every position
  \<open>i\<close> with \<open>W \<le> i + 1\<close> at which a value is yielded, that value is the double nearest
  to the mean of the \<open>W\<close> input values ending at \<open>i\<close>, and differs from the mean by at
  most the mean's magnitude divided by \<open>2\<^sup>5\<^sup>3\<close>. When every input value is at most
  \<open>2\<^sup>1\<^sup>0\<^sup>2\<^sup>3\<close> in magnitude, a value is yielded at every position. For the input
  \<open>[1, 2, 3, 4, 5, 6, 7]\<close> and \<open>W = 3\<close> the output is \<open>[1, 1.5, 2, 3, 4, 5, 6]\<close>.
\<close>

theorem moving_average_full_window_mean:
  "(\<forall>W xs i. 1 \<le> W \<and> W < 2 ^ 63 \<and> nat W \<le> Suc i \<and>
       i < length (outputs (drain (moving_average xs W))) \<longrightarrow>
       outputs (drain (moving_average xs W)) ! i =
         nearest_double (sum_list (take (nat W) (drop (Suc i - nat W) xs))) W \<and>
       \<bar>outputs (drain (moving_average xs W)) ! i -
          mean (take (nat W) (drop (Suc i - nat W) xs))\<bar> \<le>
         \<bar>mean (take (nat W) (drop (Suc i - nat W) xs))\<bar> / 2 ^ 53) \<and>
   (\<forall>W xs. 1 \<le> W \<and> W < 2 ^ 63 \<and> (\<forall>x\<in>set xs. \<bar>x\<bar> \<le> 2 ^ 1023) \<longrightarrow>
       length (outputs (drain (moving_average xs W))) = length xs) \<and>
   outputs (drain (moving_average [1, 2, 3, 4, 5, 6, 7] 3)) = [1, 3 / 2, 2, 3, 4, 5, 6]"
proof (intro conjI allI impI)
  fix W :: int and xs :: "int list" and i :: nat
  assume h: "1 \<le> W \<and> W < 2 ^ 63 \<and> nat W \<le> Suc i \<and>
       i < length (outputs (drain (moving_average xs W)))"
  define S where "S = sum_list (take (nat W) (drop (Suc i - nat W) xs))"
  define y where "y = outputs (drain (moving_average xs W)) ! i"
  from h have dr: "drain (moving_average xs W) = averages W [] xs"
    by (simp add: moving_average_drain)
  with h have i: "i < length (outputs (averages W [] xs))" by simp
  with averages_length_le [of W "[]" xs] have ixs: "i < length xs" by simp
  from averages_nth [OF i] have "window_average W (take (Suc i) xs) = Inr y"
    by (simp add: y_def dr)
  with h ixs have "truediv S W = Inr y"
    by (simp add: window_average_full S_def)
  moreover from h have "W \<noteq> 0" by simp
  ultimately have y: "y = nearest_double S W"
    using truediv_cases [of W S] by auto
  then show "outputs (drain (moving_average xs W)) ! i =
      nearest_double (sum_list (take (nat W) (drop (Suc i - nat W) xs))) W"
    by (simp add: y_def S_def)
  from h ixs have "length (take (nat W) (drop (Suc i - nat W) xs)) = nat W"
    by simp
  with h have m: "mean (take (nat W) (drop (Suc i - nat W) xs)) = of_int S / of_int W"
    by (simp add: mean_def S_def)
  from h have "\<bar>nearest_double S W - of_int S / of_int W\<bar> \<le> \<bar>rat_of_int S / of_int W\<bar> / 2 ^ 53"
    by (intro nearest_double_error small_quotient_normal) simp_all
  then show "\<bar>outputs (drain (moving_average xs W)) ! i -
          mean (take (nat W) (drop (Suc i - nat W) xs))\<bar> \<le>
         \<bar>mean (take (nat W) (drop (Suc i - nat W) xs))\<bar> / 2 ^ 53"
    by (simp only: m y [symmetric] y_def)
next
  fix W :: int and xs :: "int list"
  assume h: "1 \<le> W \<and> W < 2 ^ 63 \<and> (\<forall>x\<in>set xs. \<bar>x\<bar> \<le> 2 ^ 1023)"
  then have "raised (averages W [] xs) = None"
    by (intro averages_bounded) simp_all
  from averages_complete [OF this] h
  show "length (outputs (drain (moving_average xs W))) = length xs"
    by (simp add: moving_average_drain)
next
  have q: "truediv 1 1 = Inr 1" "truediv 6 3 = Inr 2" "truediv 9 3 = Inr 3"
    "truediv 12 3 = Inr 4" "truediv 15 3 = Inr 5" "truediv 18 3 = Inr 6"
    using truediv_int [of 1] truediv_int_quotient [of 3 2] truediv_int_quotient [of 3 3]
      truediv_int_quotient [of 3 4] truediv_int_quotient [of 3 5] truediv_int_quotient [of 3 6]
    by simp_all
  have "drain (moving_average [1, 2, 3, 4, 5, 6, 7] 3) = averages 3 [] [1, 2, 3, 4, 5, 6, 7]"
    by (simp add: moving_average_drain)
  then show "outputs (drain (moving_average [1, 2, 3, 4, 5, 6, 7] 3)) = [1, 3 / 2, 2, 3, 4, 5, 6]"
    by (simp add: window_average_def recent_def q truediv_three_halves)
qed

theorem moving_average_full_window_mean_witness:
  "(1::int) \<le> 2 \<and> (2::int) < 2 ^ 63 \<and> nat 2 \<le> Suc 2 \<and>
   2 < length (outputs (drain (moving_average [4, 8, 6, 2] 2))) \<and>
   outputs (drain (moving_average [4, 8, 6, 2] 2)) ! 2 = 7"
proof -
  have b: "\<forall>x\<in>set [4, 8, 6, 2 :: int]. \<bar>x\<bar> \<le> 2 ^ 1023"
    by simp
  have len: "length (outputs (drain (moving_average [4, 8, 6, 2] 2))) = length [4, 8, 6, 2 :: int]"
    using moving_average_full_window_mean [THEN conjunct2, THEN conjunct1, rule_format, where W = 2 and xs = "[4, 8, 6, 2]"] b
    by simp
  have n: "nearest_double 14 2 = 7"
    using nearest_double_int_quotient [of 2 7] by simp
  from moving_average_full_window_mean [THEN conjunct1, rule_format, where W = 2 and xs = "[4, 8, 6, 2]" and i = 2] len n
  show ?thesis
    by simp
qed

text \<open>
  C2, as stated, fails. With \<open>W = 0\<close> and the stream \<open>[5, 6]\<close> the error is a
  division by zero, not an invalid-argument error, and it is raised after the first element
  has been read; with \<open>W = 0\<close> and the empty stream no error is raised at all.
\<close>

theorem moving_average_zero_window_counterexample:
  "drain (moving_average [5, 6] 0) =
     \<lparr>outputs = [], raised = Some ZeroDivisionError, unread = [6]\<rparr> \<and>
   drain (moving_average [] 0) = \<lparr>outputs = [], raised = None, unread = []\<rparr>"
proof -
  have "averages 0 [] [5, 6] = \<lparr>outputs = [], raised = Some ZeroDivisionError, unread = [6]\<rparr>"
    by (simp add: window_average_def recent_def truediv_def)
  then show ?thesis
    by (simp add: moving_average_drain)
qed

text \<open>
  C2, amended. The call itself raises nothing: it returns a generator that has not
  started and has read nothing. For \<open>-2\<^sup>6\<^sup>3 \<le> W < 0\<close> the first request for a value raises
  \<open>ValueError\<close> with the stream untouched and nothing yielded; for \<open>W < -2\<^sup>6\<^sup>3\<close> it
  raises \<open>OverflowError\<close> instead, again with the stream untouched and nothing yielded.
  For \<open>W = 0\<close> no invalid-argument error is raised: on a non-empty stream the first
  request reads one element and raises \<open>ZeroDivisionError\<close> with nothing yielded, and on
  the empty stream the output is empty and no error is raised.
\<close>

theorem moving_average_nonpositive_window:
  "frame (moving_average xs W) = Created \<and>
   source (moving_average xs W) = xs \<and>
   (- (2 ^ 63) \<le> W \<and> W < 0 \<longrightarrow>
      gen_next (moving_average xs W) =
        (Raise ValueError, (moving_average xs W)\<lparr>frame := Closed\<rparr>) \<and>
      drain (moving_average xs W) =
        \<lparr>outputs = [], raised = Some ValueError, unread = xs\<rparr>) \<and>
   (W < - (2 ^ 63) \<longrightarrow>
      gen_next (moving_average xs W) =
        (Raise OverflowError, (moving_average xs W)\<lparr>frame := Closed\<rparr>) \<and>
      drain (moving_average xs W) =
        \<lparr>outputs = [], raised = Some OverflowError, unread = xs\<rparr>) \<and>
   gen_next (moving_average (x # xs) 0) =
     (Raise ZeroDivisionError, (moving_average xs 0)\<lparr>frame := Closed\<rparr>) \<and>
   drain (moving_average (x # xs) 0) =
     \<lparr>outputs = [], raised = Some ZeroDivisionError, unread = xs\<rparr> \<and>
   drain (moving_average [] 0) = \<lparr>outputs = [], raised = None, unread = []\<rparr>"
proof (intro conjI impI)
  show "frame (moving_average xs W) = Created" and "source (moving_average xs W) = xs"
    by (simp_all add: moving_average_def call_def)
next
  assume "- (2 ^ 63) \<le> W \<and> W < 0"
  then show neg: "gen_next (moving_average xs W) =
      (Raise ValueError, (moving_average xs W)\<lparr>frame := Closed\<rparr>)"
    by (simp add: moving_average_def call_def gen_next_def moving_average_code_def
                  deque_new_def)
  show "drain (moving_average xs W) = \<lparr>outputs = [], raised = Some ValueError, unread = xs\<rparr>"
    by (simp add: drain_Raise [OF neg]) (simp add: moving_average_def call_def)
next
  assume "W < - (2 ^ 63)"
  then show low: "gen_next (moving_average xs W) =
      (Raise OverflowError, (moving_average xs W)\<lparr>frame := Closed\<rparr>)"
    by (simp add: moving_average_def call_def gen_next_def moving_average_code_def
                  deque_new_def)
  show "drain (moving_average xs W) = \<lparr>outputs = [], raised = Some OverflowError, unread = xs\<rparr>"
    by (simp add: drain_Raise [OF low]) (simp add: moving_average_def call_def)
next
  show zero: "gen_next (moving_average (x # xs) 0) =
      (Raise ZeroDivisionError, (moving_average xs 0)\<lparr>frame := Closed\<rparr>)"
    by (simp add: moving_average_def call_def gen_next_def for_loop_def
                  moving_average_code_def deque_new_def deque_append_def len_def
                  deque_sum_def truediv_def)
  show "drain (moving_average (x # xs) 0) =
      \<lparr>outputs = [], raised = Some ZeroDivisionError, unread = xs\<rparr>"
    by (simp add: drain_Raise [OF zero]) (simp add: moving_average_def call_def)
next
  show "drain (moving_average [] 0) = \<lparr>outputs = [], raised = None, unread = []\<rparr>"
    by (simp add: moving_average_drain)
qed

theorem moving_average_nonpositive_window_witness:
  "- (2 ^ 63) \<le> (- 2 :: int) \<and> (- 2 :: int) < 0 \<and>
   fst (gen_next (moving_average [5, 6] (- 2))) = Raise ValueError \<and>
   drain (moving_average [5, 6] (- 2)) =
     \<lparr>outputs = [], raised = Some ValueError, unread = [5, 6]\<rparr> \<and>
   (- (2 ^ 63) - 1 :: int) < - (2 ^ 63) \<and>
   fst (gen_next (moving_average [5, 6] (- (2 ^ 63) - 1))) = Raise OverflowError \<and>
   drain (moving_average [5, 6] (- (2 ^ 63) - 1)) =
     \<lparr>outputs = [], raised = Some OverflowError, unread = [5, 6]\<rparr>"
  using moving_average_nonpositive_window [of "[5, 6]" "- 2"]
    moving_average_nonpositive_window [of "[5, 6]" "- (2 ^ 63) - 1"]
  by simp

text \<open>
  C3, as stated, fails. With \<open>W = 1\<close> and the one-element stream \<open>[10\<^sup>4\<^sup>0\<^sup>0]\<close> the division
  raises \<open>OverflowError\<close>: the element is read, nothing is yielded, and the output is
  shorter than the input.
\<close>

theorem moving_average_overflow_counterexample:
  "drain (moving_average [10 ^ 400] 1) =
     \<lparr>outputs = [], raised = Some OverflowError, unread = []\<rparr> \<and>
   length (outputs (drain (moving_average [10 ^ 400] 1))) \<noteq> length [10 ^ 400 :: int]"
proof -
  have "averages 1 [] [10 ^ 400] = \<lparr>outputs = [], raised = Some OverflowError, unread = []\<rparr>"
    using truediv_overflow by (simp add: window_average_first)
  then show ?thesis
    by (simp add: moving_average_drain)
qed

text \<open>
  C3, amended. For every window size \<open>1 \<le> W < 2\<^sup>6\<^sup>3\<close> and every finite input, the output
  is at most as long as the input, and the only error that can end it early is
  \<open>OverflowError\<close>. When no error is raised the output has the length of the input and the
  whole stream has been read; this is the case whenever every input value is at most
  \<open>2\<^sup>1\<^sup>0\<^sup>2\<^sup>3\<close> in magnitude. The empty input gives the empty output and no error.
\<close>

theorem moving_average_length:
  "1 \<le> W \<Longrightarrow> W < 2 ^ 63 \<Longrightarrow>
     length (outputs (drain (moving_average xs W))) \<le> length xs \<and>
     (raised (drain (moving_average xs W)) = None \<or>
      raised (drain (moving_average xs W)) = Some OverflowError) \<and>
     (raised (drain (moving_average xs W)) = None \<longrightarrow>
        length (outputs (drain (moving_average xs W))) = length xs \<and>
        unread (drain (moving_average xs W)) = []) \<and>
     ((\<forall>x\<in>set xs. \<bar>x\<bar> \<le> 2 ^ 1023) \<longrightarrow>
        raised (drain (moving_average xs W)) = None \<and>
        length (outputs (drain (moving_average xs W))) = length xs) \<and>
     drain (moving_average [] W) = \<lparr>outputs = [], raised = None, unread = []\<rparr>"
proof (intro conjI impI)
  assume w: "1 \<le> W" "W < 2 ^ 63"
  then have dr: "drain (moving_average ys W) = averages W [] ys" for ys
    by (simp add: moving_average_drain)
  show "length (outputs (drain (moving_average xs W))) \<le> length xs"
    by (simp add: dr averages_length_le)
  from w(1) show "raised (drain (moving_average xs W)) = None \<or>
      raised (drain (moving_average xs W)) = Some OverflowError"
    by (simp add: dr averages_raised)
  show "drain (moving_average [] W) = \<lparr>outputs = [], raised = None, unread = []\<rparr>"
    by (simp add: dr)
  {
    assume "raised (drain (moving_average xs W)) = None"
    then have "raised (averages W [] xs) = None"
      by (simp add: dr)
    from averages_complete [OF this]
    show "length (outputs (drain (moving_average xs W))) = length xs"
      and "unread (drain (moving_average xs W)) = []"
      by (simp_all add: dr)
  }
  {
    assume "\<forall>x\<in>set xs. \<bar>x\<bar> \<le> 2 ^ 1023"
    with w(1) have r: "raised (averages W [] xs) = None"
      by (intro averages_bounded) simp_all
    then show "raised (drain (moving_average xs W)) = None"
      by (simp add: dr)
    from averages_complete [OF r]
    show "length (outputs (drain (moving_average xs W))) = length xs"
      by (simp add: dr)
  }
qed

theorem moving_average_length_witness:
  "(1::int) \<le> 3 \<and> (3::int) < 2 ^ 63 \<and>
   raised (drain (moving_average [5, 1, 9, 2] 3)) = None \<and>
   length (outputs (drain (moving_average [5, 1, 9, 2] 3))) = length [5, 1, 9, 2 :: int] \<and>
   unread (drain (moving_average [5, 1, 9, 2] 3)) = [] \<and>
   drain (moving_average [] 3) = \<lparr>outputs = [], raised = None, unread = []\<rparr>"
proof -
  have b: "\<forall>x\<in>set [5, 1, 9, 2 :: int]. \<bar>x\<bar> \<le> 2 ^ 1023"
    by simp
  from moving_average_length [of 3 "[5, 1, 9, 2]"] b show ?thesis
    by simp
qed

text \<open>
  C4, as stated, fails. With \<open>W = 1\<close> and the stream \<open>[2\<^sup>5\<^sup>3 + 1]\<close> the first value
  yielded is \<open>2\<^sup>5\<^sup>3\<close>, the double nearest to the first input value, not that value.
\<close>

theorem moving_average_first_rounded_counterexample:
  "fst (gen_next (moving_average [2 ^ 53 + 1] 1)) = Yield (2 ^ 53) \<and>
   fst (gen_next (moving_average [2 ^ 53 + 1] 1)) \<noteq> Yield (rat_of_int (2 ^ 53 + 1))"
  using truediv_above_2_53 by (simp add: moving_average_first_next)

text \<open>
  C4, amended. For every window size \<open>1 \<le> W < 2\<^sup>6\<^sup>3\<close> and every non-empty input, the
  first request is answered by the division of the first input value by one: it yields the
  double nearest to that value, or raises \<open>OverflowError\<close> when the value is too large
  for a float. When the first input value is at most \<open>2\<^sup>5\<^sup>3\<close> in magnitude, the first
  request yields that value itself, and it is the head of the whole output.
\<close>

theorem moving_average_first_output:
  "1 \<le> W \<Longrightarrow> W < 2 ^ 63 \<Longrightarrow>
     fst (gen_next (moving_average (x # xs) W)) =
       (case truediv x 1 of Inl e \<Rightarrow> Raise e | Inr a \<Rightarrow> Yield a) \<and>
     (\<bar>x\<bar> \<le> 2 ^ 53 \<longrightarrow>
        fst (gen_next (moving_average (x # xs) W)) = Yield (rat_of_int x) \<and>
        outputs (drain (moving_average (x # xs) W)) \<noteq> [] \<and>
        hd (outputs (drain (moving_average (x # xs) W))) = rat_of_int x)"
proof (intro conjI impI)
  assume w: "1 \<le> W" "W < 2 ^ 63"
  then show "fst (gen_next (moving_average (x # xs) W)) =
       (case truediv x 1 of Inl e \<Rightarrow> Raise e | Inr a \<Rightarrow> Yield a)"
    by (rule moving_average_first_next)
  assume x: "\<bar>x\<bar> \<le> 2 ^ 53"
  with w show "fst (gen_next (moving_average (x # xs) W)) = Yield (rat_of_int x)"
    by (simp add: moving_average_first_next truediv_int)
  from w x have "outputs (averages W [] (x # xs)) = rat_of_int x # outputs (averages W [x] xs)"
    by (simp add: window_average_first truediv_int Let_def)
  with w show "outputs (drain (moving_average (x # xs) W)) \<noteq> []"
    and "hd (outputs (drain (moving_average (x # xs) W))) = rat_of_int x"
    by (simp_all add: moving_average_drain)
qed

theorem moving_average_first_output_witness:
  "(1::int) \<le> 3 \<and> (3::int) < 2 ^ 63 \<and> \<bar>9 :: int\<bar> \<le> 2 ^ 53 \<and>
   fst (gen_next (moving_average [9, 2, 4] 3)) = Yield 9 \<and>
   outputs (drain (moving_average [9, 2, 4] 3)) \<noteq> [] \<and>
   hd (outputs (drain (moving_average [9, 2, 4] 3))) = 9"
  using moving_average_first_output [of 3 9 "[2, 4]"] truediv_int [of 9] by simp

text \<open>
  C5, as stated, fails. With \<open>W = 2\<^sup>6\<^sup>3\<close> and the stream \<open>[7]\<close>, \<open>moving_average\<close>
  raises \<open>OverflowError\<close> from \<^verbatim>\<open>deque(maxlen=window_size)\<close> before reading anything,
  while \<open>moving_average_explicit\<close> and \<open>moving_average_optimized\<close> yield \<open>7\<close>.
\<close>

theorem moving_average_variants_differ_counterexample:
  "drain (moving_average [7] (2 ^ 63)) =
     \<lparr>outputs = [], raised = Some OverflowError, unread = [7]\<rparr> \<and>
   drain (moving_average_explicit [7] (2 ^ 63)) =
     \<lparr>outputs = [7], raised = None, unread = []\<rparr> \<and>
   drain (moving_average_optimized [7] (2 ^ 63)) =
     \<lparr>outputs = [7], raised = None, unread = []\<rparr>"
proof -
  have "gen_next (moving_average [7] (2 ^ 63)) =
      (Raise OverflowError, (moving_average [7] (2 ^ 63))\<lparr>frame := Closed\<rparr>)"
    by (simp add: moving_average_def call_def gen_next_def moving_average_code_def
                  deque_new_def)
  from drain_Raise [OF this]
  have a: "drain (moving_average [7] (2 ^ 63)) =
      \<lparr>outputs = [], raised = Some OverflowError, unread = [7]\<rparr>"
    by (simp add: moving_average_def call_def)
  have t: "truediv 7 1 = Inr 7"
    using truediv_int [of 7] by simp
  have "averages (2 ^ 63) [] [7] = \<lparr>outputs = [7], raised = None, unread = []\<rparr>"
    by (simp add: window_average_first t)
  with a show ?thesis
    by (simp add: moving_average_explicit_drain moving_average_optimized_drain)
qed

text \<open>
  C5, amended. For every window size \<open>1 \<le> W < 2\<^sup>6\<^sup>3\<close>, \<open>moving_average\<close>,
  \<open>moving_average_explicit\<close> and \<open>moving_average_optimized\<close> give the same outcome on the
  same input: the same values, the same error if any, the same part of the stream read.
\<close>

theorem moving_average_variants_agree:
  "1 \<le> W \<Longrightarrow> W < 2 ^ 63 \<Longrightarrow>
     drain (moving_average_explicit xs W) = drain (moving_average xs W) \<and>
     drain (moving_average_optimized xs W) = drain (moving_average xs W)"
  by (simp add: moving_average_drain moving_average_explicit_drain
                moving_average_optimized_drain)

theorem moving_average_variants_agree_witness:
  "(1::int) \<le> 2 \<and> (2::int) < 2 ^ 63 \<and>
   drain (moving_average_explicit [3, 1, 4, 1, 5] 2) = drain (moving_average [3, 1, 4, 1, 5] 2) \<and>
   drain (moving_average_optimized [3, 1, 4, 1, 5] 2) = drain (moving_average [3, 1, 4, 1, 5] 2)"
  using moving_average_variants_agree [of 2 "[3, 1, 4, 1, 5]"] by simp

text \<open>
  C6. In \<open>moving_average_optimized\<close> with \<open>W \<ge> 1\<close>, whenever the generator is
  suspended at its \<^verbatim>\<open>yield\<close>, that is after an input element has been processed,
  \<open>running_sum\<close> is the sum of the window and the window holds at most \<open>W\<close> values. When
  every input value is at most \<open>2\<^sup>1\<^sup>0\<^sup>2\<^sup>3\<close> in magnitude, the generator is suspended in
  such a state after each of the first \<open>length xs\<close> requests.
\<close>

theorem moving_average_optimized_invariant:
  "1 \<le> W \<Longrightarrow>
     (\<forall>window running_sum.
        frame (after n (moving_average_optimized xs W)) = Suspended (window, running_sum) \<longrightarrow>
        running_sum = deque_sum window \<and> len window \<le> W) \<and>
     (0 < n \<and> n \<le> length xs \<and> (\<forall>x\<in>set xs. \<bar>x\<bar> \<le> 2 ^ 1023) \<longrightarrow>
        (\<exists>window running_sum.
           frame (after n (moving_average_optimized xs W)) = Suspended (window, running_sum)))"
proof (intro conjI allI impI)
  fix window running_sum
  assume "1 \<le> W"
    and "frame (after n (moving_average_optimized xs W)) = Suspended (window, running_sum)"
  with optimized_frame_invariant(1) [of W n xs]
  have "running_sum_invariant W (window, running_sum)"
    by simp
  then show "running_sum = deque_sum window" and "len window \<le> W"
    by (simp_all add: running_sum_invariant_def deque_sum_def len_def)
next
  assume "1 \<le> W" and "0 < n \<and> n \<le> length xs \<and> (\<forall>x\<in>set xs. \<bar>x\<bar> \<le> 2 ^ 1023)"
  then show "\<exists>window running_sum.
      frame (after n (moving_average_optimized xs W)) = Suspended (window, running_sum)"
    by (simp add: moving_average_optimized_frame_after)
qed

theorem moving_average_optimized_invariant_witness:
  "(1::int) \<le> 2 \<and>
   frame (after 3 (moving_average_optimized [3, 1, 4, 1, 5] 2)) =
     Suspended (\<lparr>items = [1, 4], maxlen = None\<rparr>, 5) \<and>
   (5::int) = deque_sum \<lparr>items = [1, 4], maxlen = None\<rparr> \<and>
   len \<lparr>items = [1, 4], maxlen = None\<rparr> \<le> 2"
proof -
  have b: "\<forall>x\<in>set [3, 1, 4, 1, 5 :: int]. \<bar>x\<bar> \<le> 2 ^ 1023"
    by simp
  have f: "frame (after 3 (moving_average_optimized [3, 1, 4, 1, 5] 2)) =
      Suspended (\<lparr>items = [1, 4], maxlen = None\<rparr>, 5)"
    using b by (subst moving_average_optimized_frame_after) (simp_all add: recent_def)
  from moving_average_optimized_invariant [of 2 3 "[3, 1, 4, 1, 5]"] f show ?thesis
    by simp
qed

text \<open>
  C7, as stated, fails. With \<open>W = 1\<close> and the stream \<open>[2\<^sup>5\<^sup>3 + 1]\<close> the output is
  \<open>[2\<^sup>5\<^sup>3]\<close>, which is not the input.
\<close>

theorem moving_average_window_one_rounded_counterexample:
  "drain (moving_average [2 ^ 53 + 1] 1) =
     \<lparr>outputs = [2 ^ 53], raised = None, unread = []\<rparr> \<and>
   outputs (drain (moving_average [2 ^ 53 + 1] 1)) \<noteq> map rat_of_int [2 ^ 53 + 1]"
proof -
  have "averages 1 [] [2 ^ 53 + 1] = \<lparr>outputs = [2 ^ 53], raised = None, unread = []\<rparr>"
    using truediv_above_2_53 by (simp add: window_average_first)
  then show ?thesis
    by (simp add: moving_average_drain)
qed

text \<open>
  C7, amended. For window size \<open>1\<close> and an input whose values are all at most \<open>2\<^sup>5\<^sup>3\<close>
  in magnitude, the output is the input, value for value, no error is raised and the whole
  stream is read.
\<close>

theorem moving_average_window_one_identity:
  "\<forall>x\<in>set xs. \<bar>x\<bar> \<le> 2 ^ 53 \<Longrightarrow>
   drain (moving_average xs 1) = \<lparr>outputs = map rat_of_int xs, raised = None, unread = []\<rparr>"
  by (simp add: moving_average_drain averages_one)

theorem moving_average_window_one_identity_witness:
  "drain (moving_average [3, - 1, 4] 1) = \<lparr>outputs = [3, - 1, 4], raised = None, unread = []\<rparr>"
proof -
  have b: "\<forall>x\<in>set [3, - 1, 4 :: int]. \<bar>x\<bar> \<le> 2 ^ 53"
    by simp
  from moving_average_window_one_identity [OF b] show ?thesis
    by simp
qed

text \<open>
  C8. For \<open>W \<ge> 1\<close>, in each of the three generators and after any number of
  requests: the window of a suspended generator, which is the window the last average was
  divided by the length of, is not empty, and the next request does not raise
  \<open>ZeroDivisionError\<close>.
\<close>

theorem moving_average_divisor_nonzero:
  "1 \<le> W \<Longrightarrow>
     (\<forall>window. frame (after n (moving_average xs W)) = Suspended window \<longrightarrow> len window \<noteq> 0) \<and>
     fst (gen_next (after n (moving_average xs W))) \<noteq> Raise ZeroDivisionError \<and>
     (\<forall>window. frame (after n (moving_average_explicit xs W)) = Suspended window \<longrightarrow>
        len window \<noteq> 0) \<and>
     fst (gen_next (after n (moving_average_explicit xs W))) \<noteq> Raise ZeroDivisionError \<and>
     (\<forall>window running_sum.
        frame (after n (moving_average_optimized xs W)) = Suspended (window, running_sum) \<longrightarrow>
        len window \<noteq> 0) \<and>
     fst (gen_next (after n (moving_average_optimized xs W))) \<noteq> Raise ZeroDivisionError"
proof (intro conjI)
  assume w: "1 \<le> W"
  from bounded_frame_invariant(1) [OF w, of n xs]
  show "\<forall>window. frame (after n (moving_average xs W)) = Suspended window \<longrightarrow> len window \<noteq> 0"
    by (simp add: len_def)
  from explicit_frame_invariant(1) [OF w, of n xs]
  show "\<forall>window. frame (after n (moving_average_explicit xs W)) = Suspended window \<longrightarrow>
      len window \<noteq> 0"
    by (simp add: len_def)
  from optimized_frame_invariant(1) [OF w, of n xs]
  show "\<forall>window running_sum.
      frame (after n (moving_average_optimized xs W)) = Suspended (window, running_sum) \<longrightarrow>
      len window \<noteq> 0"
    by (simp add: len_def)
  from w show "fst (gen_next (after n (moving_average xs W))) \<noteq> Raise ZeroDivisionError"
    by (rule bounded_frame_invariant(2))
  from w show "fst (gen_next (after n (moving_average_explicit xs W))) \<noteq> Raise ZeroDivisionError"
    by (rule explicit_frame_invariant(2))
  from w show "fst (gen_next (after n (moving_average_optimized xs W))) \<noteq> Raise ZeroDivisionError"
    by (rule optimized_frame_invariant(2))
qed

theorem moving_average_divisor_nonzero_witness:
  "(1::int) \<le> 2 \<and>
   frame (after 1 (moving_average [7, 8] 2)) = Suspended \<lparr>items = [7], maxlen = Some 2\<rparr> \<and>
   len \<lparr>items = [7], maxlen = Some 2\<rparr> \<noteq> 0 \<and>
   fst (gen_next (after 1 (moving_average [7, 8] 2))) \<noteq> Raise ZeroDivisionError \<and>
   frame (after 1 (moving_average_explicit [7, 8] 2)) =
     Suspended \<lparr>items = [7], maxlen = None\<rparr> \<and>
   len \<lparr>items = [7], maxlen = None\<rparr> \<noteq> 0 \<and>
   fst (gen_next (after 1 (moving_average_explicit [7, 8] 2))) \<noteq> Raise ZeroDivisionError \<and>
   frame (after 1 (moving_average_optimized [7, 8] 2)) =
     Suspended (\<lparr>items = [7], maxlen = None\<rparr>, 7) \<and>
   fst (gen_next (after 1 (moving_average_optimized [7, 8] 2))) \<noteq> Raise ZeroDivisionError"
proof -
  have w: "(1::int) \<le> 2"
    by simp
  have b: "\<forall>x\<in>set [7, 8 :: int]. \<bar>x\<bar> \<le> 2 ^ 1023"
    by simp
  have f1: "frame (after 1 (moving_average [7, 8] 2)) =
            Suspended \<lparr>items = [7], maxlen = Some 2\<rparr>"
    using b by (subst moving_average_frame_after) (simp_all add: recent_def)
  have f2: "frame (after 1 (moving_average_explicit [7, 8] 2)) =
            Suspended \<lparr>items = [7], maxlen = None\<rparr>"
    using b by (subst moving_average_explicit_frame_after) (simp_all add: recent_def)
  have f3: "frame (after 1 (moving_average_optimized [7, 8] 2)) =
            Suspended (\<lparr>items = [7], maxlen = None\<rparr>, 7)"
    using b by (subst moving_average_optimized_frame_after) (simp_all add: recent_def)
  from moving_average_divisor_nonzero [OF w, of 1 "[7, 8]"] f1 f2 f3 show ?thesis
    by simp
qed

section \<open>The claims about the decorators\<close>

text \<open>
  C9. When \<open>func\<close> returns a string for the given arguments, the function decorated
  by \<open>shout\<close> returns that string in upper case followed by \<open>!!!\<close>.
\<close>

theorem shout_result:
  "func args = Inr result \<Longrightarrow> shout func args = Inr (upper result @ ''!!!'')"
  by (simp add: shout_def)

theorem shout_result_witness:
  "greet ''alice'' = Inr ''hello alice'' \<and> shout greet ''alice'' = Inr ''HELLO ALICE!!!''"
proof -
  have u: "upper ''hello alice'' = ''HELLO ALICE''"
    by code_simp
  have f: "greet ''alice'' = Inr ''hello alice''"
    by (simp add: greet_def)
  from shout_result [of greet "''alice''" "''hello alice''"] u f show ?thesis
    by simp
qed

text \<open>
  C10. When \<open>func\<close> returns a string for the given arguments, the function decorated
  by \<open>style prefix suffix\<close> returns the prefix, the unchanged result and the suffix, joined.
\<close>

theorem style_result:
  "func args = Inr result \<Longrightarrow>
   style prefix suffix func args = Inr (prefix @ result @ suffix)"
  by (simp add: style_def)

theorem style_result_witness:
  "say_something ''Python is awesome'' = Inr ''Python is awesome'' \<and>
   style ''>>> '' '' <<<'' say_something ''Python is awesome'' =
     Inr ''>>> Python is awesome <<<''"
proof -
  have f: "say_something ''Python is awesome'' = Inr ''Python is awesome''"
    by (simp add: say_something_def)
  from style_result [of say_something "''Python is awesome''" "''Python is awesome''" "''>>> ''" "'' <<<''"] f
  show ?thesis
    by simp
qed

end
